theory Spec2Isabelle
  imports Main "HOL-Library.Word" "HOL-Library.Sublist"
begin

section \<open>JavaScript strings and regular expressions\<close>

text \<open>
  A JavaScript string is a sequence of 16-bit code units. The ignore glyph of
  \<^verbatim>\<open>wt-function/todoist.js\<close> is the code unit U+2716, so strings are lists of
  16-bit words; \<open>js\<close> embeds an ASCII literal.
\<close>

type_synonym jsstring = "16 word list"

definition js :: "string \<Rightarrow> jsstring" where
  "js s = map of_char s"

text \<open>The character classes \<^verbatim>\<open>\s\<close>, \<^verbatim>\<open>\d\<close>, \<^verbatim>\<open>\w\<close> and the line terminators
  that \<^verbatim>\<open>.\<close> excludes (ECMAScript, no flags).\<close>

definition isLineTerminator :: "16 word \<Rightarrow> bool" where
  "isLineTerminator c \<longleftrightarrow> c = 0x0A \<or> c = 0x0D \<or> c = 0x2028 \<or> c = 0x2029"

definition isSpace :: "16 word \<Rightarrow> bool" where
  "isSpace c \<longleftrightarrow>
     c = 0x09 \<or> c = 0x0B \<or> c = 0x0C \<or> c = 0x20 \<or> c = 0xA0 \<or> c = 0x1680 \<or>
     (0x2000 \<le> c \<and> c \<le> 0x200A) \<or> c = 0x202F \<or> c = 0x205F \<or> c = 0x3000 \<or>
     c = 0xFEFF \<or> isLineTerminator c"

definition isDigit :: "16 word \<Rightarrow> bool" where
  "isDigit c \<longleftrightarrow> 0x30 \<le> c \<and> c \<le> 0x39"

definition isWordChar :: "16 word \<Rightarrow> bool" where
  "isWordChar c \<longleftrightarrow>
     (0x61 \<le> c \<and> c \<le> 0x7A) \<or> (0x41 \<le> c \<and> c \<le> 0x5A) \<or> isDigit c \<or> c = 0x5F"

definition notLineTerminator :: "16 word \<Rightarrow> bool" where
  "notLineTerminator c \<longleftrightarrow> \<not> isLineTerminator c"

text \<open>
  The fragment of the regular-expression language that the source uses. Every
  quantifier of the source applies to a single character class (or, for \<^verbatim>\<open>:?\<close>,
  to a single character), so the quantifiers take a class.
\<close>

datatype regex =
    Chr "16 word"                \<comment> \<open>a literal code unit\<close>
  | Cls "16 word \<Rightarrow> bool"         \<comment> \<open>one code unit of a class\<close>
  | Star "16 word \<Rightarrow> bool"        \<comment> \<open>\<^verbatim>\<open>c*\<close>, greedy\<close>
  | Plus "16 word \<Rightarrow> bool"        \<comment> \<open>\<^verbatim>\<open>c+\<close>, greedy\<close>
  | Rep nat "16 word \<Rightarrow> bool"     \<comment> \<open>\<^verbatim>\<open>c{n}\<close>\<close>
  | Opt regex                    \<comment> \<open>\<^verbatim>\<open>r?\<close>, greedy\<close>
  | Seq regex regex
  | Group nat regex              \<comment> \<open>capture group number n\<close>
  | Empty
  | Bol                          \<comment> \<open>\<^verbatim>\<open>^\<close>\<close>
  | Eol                          \<comment> \<open>\<^verbatim>\<open>$\<close>\<close>
  | WordB                        \<comment> \<open>\<^verbatim>\<open>\b\<close>\<close>
  | NotWordB                     \<comment> \<open>\<^verbatim>\<open>\B\<close>\<close>

text \<open>A matcher state: the input before the current position, the input after
  it, and the captures made so far.\<close>

datatype mstate =
  MState (before: jsstring) (after: jsstring) (caps: "nat \<Rightarrow> jsstring option")

definition advance :: "nat \<Rightarrow> mstate \<Rightarrow> mstate" where
  "advance k st = MState (before st @ take k (after st)) (drop k (after st)) (caps st)"

definition set_cap :: "nat \<Rightarrow> jsstring \<Rightarrow> mstate \<Rightarrow> mstate" where
  "set_cap i x st = MState (before st) (after st) ((caps st)(i \<mapsto> x))"

definition wordBefore :: "mstate \<Rightarrow> bool" where
  "wordBefore st \<longleftrightarrow> before st \<noteq> [] \<and> isWordChar (last (before st))"

definition wordAfter :: "mstate \<Rightarrow> bool" where
  "wordAfter st \<longleftrightarrow> (case after st of [] \<Rightarrow> False | c # _ \<Rightarrow> isWordChar c)"

text \<open>
  The backtracking matcher: \<open>ms r st\<close> lists the states in which \<open>r\<close> can end
  when started in \<open>st\<close>, in the order in which a backtracking engine tries
  them (a greedy quantifier tries the longest run first).
\<close>

fun ms :: "regex \<Rightarrow> mstate \<Rightarrow> mstate list" where
  "ms (Chr x) st = (case after st of [] \<Rightarrow> [] | c # _ \<Rightarrow> if c = x then [advance 1 st] else [])"
| "ms (Cls p) st = (case after st of [] \<Rightarrow> [] | c # _ \<Rightarrow> if p c then [advance 1 st] else [])"
| "ms (Star p) st =
     map (\<lambda>k. advance k st) (rev [0 ..< Suc (length (takeWhile p (after st)))])"
| "ms (Plus p) st =
     map (\<lambda>k. advance k st) (rev [1 ..< Suc (length (takeWhile p (after st)))])"
| "ms (Rep n p) st = (if n \<le> length (takeWhile p (after st)) then [advance n st] else [])"
| "ms (Opt r) st = ms r st @ [st]"
| "ms (Seq r1 r2) st = concat (map (ms r2) (ms r1 st))"
| "ms (Group i r) st =
     map (\<lambda>st'. set_cap i (take (length (after st) - length (after st')) (after st)) st')
       (ms r st)"
| "ms Empty st = [st]"
| "ms Bol st = (if before st = [] then [st] else [])"
| "ms Eol st = (if after st = [] then [st] else [])"
| "ms WordB st = (if wordBefore st \<noteq> wordAfter st then [st] else [])"
| "ms NotWordB st = (if wordBefore st \<noteq> wordAfter st then [] else [st])"

text \<open>\<open>search\<close> tries the start positions from left to right; the first start
  position with a match wins, and there the first state of \<open>ms\<close>.\<close>

fun search :: "regex \<Rightarrow> jsstring \<Rightarrow> jsstring \<Rightarrow> (nat \<times> mstate) option" where
  "search r b a =
     (case ms r (MState b a Map.empty) of
        st # _ \<Rightarrow> Some (length b, st)
      | [] \<Rightarrow> (case a of [] \<Rightarrow> None | c # a' \<Rightarrow> search r (b @ [c]) a'))"

definition exec :: "regex \<Rightarrow> jsstring \<Rightarrow> (nat \<times> mstate) option" where
  "exec r s = search r [] s"

text \<open>\<^verbatim>\<open>re.test(s)\<close>, \<^verbatim>\<open>s.match(re)\<close> (the captures, by group number) and
  \<^verbatim>\<open>s.replace(re, '')\<close> for a regular expression without the global flag.\<close>

definition RegExp_test :: "regex \<Rightarrow> jsstring \<Rightarrow> bool" where
  "RegExp_test r s \<longleftrightarrow> exec r s \<noteq> None"

definition String_match :: "jsstring \<Rightarrow> regex \<Rightarrow> (nat \<Rightarrow> jsstring option) option" where
  "String_match s r = map_option (\<lambda>(i, st). caps st) (exec r s)"

definition String_remove :: "jsstring \<Rightarrow> regex \<Rightarrow> jsstring" where
  "String_remove s r = (case exec r s of None \<Rightarrow> s | Some (i, st) \<Rightarrow> take i s @ after st)"

definition cat :: "regex list \<Rightarrow> regex" where
  "cat rs = foldr Seq rs Empty"

text \<open>\<^verbatim>\<open>String.prototype.trim\<close> and \<^verbatim>\<open>toLowerCase\<close>. The case mapping is the ASCII
  one; code units outside \<^verbatim>\<open>A-Z\<close> are left as they are.\<close>

definition String_trim :: "jsstring \<Rightarrow> jsstring" where
  "String_trim s = rev (dropWhile isSpace (rev (dropWhile isSpace s)))"

definition toLowerCase :: "jsstring \<Rightarrow> jsstring" where
  "toLowerCase s = map (\<lambda>c. if 0x41 \<le> c \<and> c \<le> 0x5A then c + 0x20 else c) s"

section \<open>The constants of \<^verbatim>\<open>wt-function/todoist.js\<close>\<close>

definition ROOT_SECTION :: jsstring where
  "ROOT_SECTION = js '':root''"

definition RE_PLAYLIST_CONTENT :: regex where
  "RE_PLAYLIST_CONTENT = cat (WordB # map Chr (js ''playlist'') @ [WordB])"

definition RE_YT_PLAYLIST :: regex where
  "RE_YT_PLAYLIST = cat ([Star isSpace, Chr 0x2D, Star isSpace] @ map Chr (js ''YouTube'') @ [Eol])"

definition RE_TAG :: regex where
  "RE_TAG = cat [Bol, Chr 0x7B, Group 1 (Plus (\<lambda>c. c \<noteq> 0x7D)), Chr 0x7D, Plus isSpace,
     Group 2 (Plus notLineTerminator)]"

definition hyperlink_tail :: regex where
  "hyperlink_tail = cat [Star isSpace, Chr 0x28, Group 2 (Plus notLineTerminator), Chr 0x29, NotWordB]"

definition RE_HYPERTEXT_1 :: regex where
  "RE_HYPERTEXT_1 = cat [Bol, Group 1 (Plus (\<lambda>c. c \<noteq> 0x28 \<and> \<not> isSpace c)), Plus isSpace,
     hyperlink_tail]"

definition RE_HYPERTEXT_2 :: regex where
  "RE_HYPERTEXT_2 = cat [Bol, Chr 0x5B, Group 1 (Plus (\<lambda>c. c \<noteq> 0x28 \<and> \<not> isSpace c)), Chr 0x5D,
     hyperlink_tail]"

definition RE_IGNORE_ITEM :: regex where
  "RE_IGNORE_ITEM = cat [Chr 0x2716, Opt (Chr 0x3A), Eol]"

definition RE_IGNORE_SECTION :: regex where
  "RE_IGNORE_SECTION = cat [Chr 0x2716, Eol]"

definition RE_CATEGORY_ITEM :: regex where
  "RE_CATEGORY_ITEM = cat [Chr 0x3A, Eol]"

definition RE_DATE :: regex where
  "RE_DATE = cat [Bol, Group 1 (Rep 4 isDigit), Chr 0x2D, Group 2 (Rep 2 isDigit), Chr 0x2D,
     Group 3 (Rep 2 isDigit)]"

definition NIL :: int where
  "NIL = - 1"

section \<open>Errors\<close>

datatype error = TypeError | FetchError jsstring

section \<open>formatDate, formatContent\<close>

text \<open>
  \<^verbatim>\<open>const [, day, month, year] = dateStr.match(...)\<close>: destructuring \<^verbatim>\<open>null\<close>
  throws a TypeError; a group that did not take part is \<^verbatim>\<open>undefined\<close> and is
  printed as such by the template.
\<close>

definition undefined_text :: "jsstring option \<Rightarrow> jsstring" where
  "undefined_text v = (case v of None \<Rightarrow> js ''undefined'' | Some s \<Rightarrow> s)"

definition formatDate :: "jsstring \<Rightarrow> error + jsstring" where
  "formatDate dateStr =
     (case String_match dateStr RE_DATE of
        None \<Rightarrow> Inl TypeError
      | Some m \<Rightarrow>
          (let day = m 1; month = m 2; year = m 3
           in Inr (undefined_text month @ js '' '' @ undefined_text day @ js '', '' @ undefined_text year)))"

definition removeYouTubeKeyword :: "jsstring \<Rightarrow> jsstring" where
  "removeYouTubeKeyword str = String_remove str RE_YT_PLAYLIST"

record ParsedContent =
  "text" :: "jsstring option"
  tag :: "jsstring option"
  link :: "jsstring option"

text \<open>A property of \<^verbatim>\<open>onlyTruthyValuesOnPojo\<close>'s argument is kept when it is
  truthy: neither \<^verbatim>\<open>undefined\<close> nor the empty string.\<close>

definition truthy :: "jsstring option \<Rightarrow> jsstring option" where
  "truthy v = (case v of None \<Rightarrow> None | Some s \<Rightarrow> if s = [] then None else Some s)"

definition onlyTruthyValuesOnPojo :: "ParsedContent \<Rightarrow> ParsedContent" where
  "onlyTruthyValuesOnPojo obj =
     \<lparr>text = truthy (text obj), tag = truthy (tag obj), link = truthy (link obj)\<rparr>"

text \<open>
  The content after the tag and hypertext steps; \<^verbatim>\<open>content\<close> is \<^verbatim>\<open>undefined\<close>
  (\<open>None\<close>) when it was assigned from a group that did not take part, and the next
  method call on it throws a TypeError.
\<close>

definition formatContent :: "jsstring \<Rightarrow> error + ParsedContent" where
  "formatContent content0 =
     (let (tag1, content1) =
            (case String_match content0 RE_TAG of
               Some m \<Rightarrow> (m 1, m 2)
             | None \<Rightarrow>
                 (if RegExp_test RE_PLAYLIST_CONTENT content0 then Some (js ''playlist'') else None,
                  Some content0))
      in case content1 of
           None \<Rightarrow> Inl TypeError
         | Some content1 \<Rightarrow>
             (let (link2, content2) =
                    (case String_match content1 RE_HYPERTEXT_1 of
                       Some m \<Rightarrow> (m 1, m 2)
                     | None \<Rightarrow>
                         (case String_match content1 RE_HYPERTEXT_2 of
                            Some m \<Rightarrow> (m 2, m 1)
                          | None \<Rightarrow> (None, Some content1)))
              in case content2 of
                   None \<Rightarrow> Inl TypeError
                 | Some content2 \<Rightarrow>
                     Inr (onlyTruthyValuesOnPojo
                       \<lparr>text = Some (removeYouTubeKeyword content2),
                        tag = map_option toLowerCase tag1,
                        link = link2\<rparr>)))"

section \<open>Items, tasks and the section map\<close>

text \<open>
  Identifiers are numbers (\<open>int\<close>); \<^verbatim>\<open>parent_id\<close> and \<^verbatim>\<open>section_id\<close> may be
  \<^verbatim>\<open>null\<close> (\<open>None\<close>). \<^verbatim>\<open>checked\<close> is the number 0 or 1 of the sync API.
\<close>

record RawItem =
  id' :: int
  parent_id :: "int option"
  section_id :: "int option"
  content :: jsstring
  checked :: int
  date_added :: jsstring
  priority :: int

record Task =
  checked :: bool
  dateAdded :: jsstring
  id' :: int
  parentId :: "int option"
  sectionId :: "int option"
  priority :: int
  content :: ParsedContent

record Section =
  id' :: int
  name :: jsstring
  project_id :: int

text \<open>
  A SectionMap is a JavaScript object. Its property keys are the strings of
  section ids and the string \<^verbatim>\<open>"null"\<close>: \<open>Some n\<close> stands for the key of the
  number \<open>n\<close> and \<open>None\<close> for \<^verbatim>\<open>"null"\<close>. The list keeps the properties in the order
  of their creation. The value of the key \<^verbatim>\<open>"null"\<close> is the string ROOT_SECTION,
  the other values are parsed contents.
\<close>

datatype SectionName = Label jsstring | Parsed ParsedContent

type_synonym SectionMap = "(int option \<times> SectionName) list"

text \<open>\<^verbatim>\<open>key in obj\<close>, \<^verbatim>\<open>obj[key]\<close>, \<^verbatim>\<open>obj[key] = v\<close> (a new property is created
  last, an existing one keeps its place) and the rest of a destructuring that
  takes one key out.\<close>

definition obj_has :: "'k \<Rightarrow> ('k \<times> 'v) list \<Rightarrow> bool" where
  "obj_has k obj \<longleftrightarrow> k \<in> fst ` set obj"

definition obj_get :: "('k \<times> 'v) list \<Rightarrow> 'k \<Rightarrow> 'v option" where
  "obj_get obj k = map_of obj k"

fun obj_put :: "'k \<Rightarrow> 'v \<Rightarrow> ('k \<times> 'v) list \<Rightarrow> ('k \<times> 'v) list" where
  "obj_put k v [] = [(k, v)]"
| "obj_put k v ((k', v') # obj) = (if k' = k then (k, v) # obj else (k', v') # obj_put k v obj)"

definition obj_rest :: "'k \<Rightarrow> ('k \<times> 'v) list \<Rightarrow> ('k \<times> 'v) list" where
  "obj_rest k obj = filter (\<lambda>(k', v). k' \<noteq> k) obj"

text \<open>
  \<^verbatim>\<open>Object.keys\<close>: the keys that are array indices (the integers from 0 to
  \<open>2^32 - 2\<close>) in ascending order, then the other keys in the order of their
  creation.
\<close>

definition isArrayIndex :: "int option \<Rightarrow> bool" where
  "isArrayIndex k \<longleftrightarrow> (case k of None \<Rightarrow> False | Some n \<Rightarrow> 0 \<le> n \<and> n < 2 ^ 32 - 1)"

definition Object_keys :: "(int option \<times> 'v) list \<Rightarrow> int option list" where
  "Object_keys obj =
     map Some (sort [n. Some n \<leftarrow> map fst obj, isArrayIndex (Some n)])
     @ filter (\<lambda>k. \<not> isArrayIndex k) (map fst obj)"

section \<open>formatProjectItems\<close>

definition formatItem :: "RawItem \<Rightarrow> error + Task" where
  "formatItem item =
     (case formatDate (date_added item) of
        Inl e \<Rightarrow> Inl e
      | Inr d \<Rightarrow>
          (case formatContent (RawItem.content item) of
             Inl e \<Rightarrow> Inl e
           | Inr c \<Rightarrow>
               Inr \<lparr>checked = (RawItem.checked item \<noteq> 0),
                    dateAdded = d,
                    id' = RawItem.id' item,
                    parentId = parent_id item,
                    sectionId = section_id item,
                    priority = RawItem.priority item,
                    content = c\<rparr>))"

text \<open>
  The loop of \<^verbatim>\<open>formatProjectItems\<close>, with its three variables
  \<^verbatim>\<open>selectedTasks\<close>, \<^verbatim>\<open>categoryIds\<close> and \<^verbatim>\<open>lastSkippedParentId\<close>. A \<^verbatim>\<open>null\<close>
  parent is never equal to \<^verbatim>\<open>lastSkippedParentId\<close>, which is a number.
\<close>

fun formatProjectItems_loop ::
  "SectionMap \<Rightarrow> RawItem list \<Rightarrow> Task list \<Rightarrow> int list \<Rightarrow> int \<Rightarrow> error + (Task list \<times> int list)"
where
  "formatProjectItems_loop sectionsNameById [] selectedTasks categoryIds lastSkippedParentId =
     Inr (selectedTasks, categoryIds)"
| "formatProjectItems_loop sectionsNameById (item # items) selectedTasks categoryIds
     lastSkippedParentId =
     (let currId = RawItem.id' item; currParentId = parent_id item;
          currContent = RawItem.content item; sectionId = section_id item
      in if \<not> obj_has sectionId sectionsNameById then
           formatProjectItems_loop sectionsNameById items selectedTasks categoryIds
             lastSkippedParentId
         else if RegExp_test RE_IGNORE_ITEM currContent then
           formatProjectItems_loop sectionsNameById items selectedTasks categoryIds currId
         else
           (let isCategory = RegExp_test RE_CATEGORY_ITEM currContent;
                parentSkipped = (currParentId = Some lastSkippedParentId);
                skipItem = (parentSkipped \<or> isCategory)
            in case (if \<not> skipItem
                     then map_sum (\<lambda>e. e) (\<lambda>t. selectedTasks @ [t]) (formatItem item)
                     else Inr selectedTasks) of
                 Inl e \<Rightarrow> Inl e
               | Inr selectedTasks' \<Rightarrow>
                   (let last1 = (if currParentId \<noteq> Some lastSkippedParentId then NIL
                                 else lastSkippedParentId);
                        categoryIds' = (if isCategory then categoryIds @ [currId]
                                        else categoryIds);
                        last2 = (if isCategory \<and> parentSkipped then currId else last1)
                    in formatProjectItems_loop sectionsNameById items selectedTasks'
                         categoryIds' last2)))"

text \<open>The second parameter is optional: \<open>None\<close> is \<^verbatim>\<open>undefined\<close>, and the default
  value \<^verbatim>\<open>{ null: ROOT_SECTION }\<close> takes its place.\<close>

definition defaultSectionMap :: SectionMap where
  "defaultSectionMap = [(None, Label ROOT_SECTION)]"

definition formatProjectItems ::
  "RawItem list \<Rightarrow> SectionMap option \<Rightarrow> error + (Task list \<times> int list)"
where
  "formatProjectItems items sectionsNameById =
     formatProjectItems_loop
       (case sectionsNameById of None \<Rightarrow> defaultSectionMap | Some m \<Rightarrow> m)
       items [] [] NIL"

section \<open>The fetch capability, promises\<close>

text \<open>
  The body of a request to \<^verbatim>\<open>archive/items\<close>: the one query parameter and the
  cursor, absent (\<open>None\<close>) in the first request of a query. One page of the answer.
\<close>

record params =
  query_key :: jsstring
  query_value :: jsstring
  cursor :: "jsstring option"

record ArchivedProjectData =
  items :: "RawItem list"
  has_more :: bool
  next_cursor :: "jsstring option"

text \<open>
  \<^verbatim>\<open>this.conn.post('archive/items', params)\<close>, awaited: an answer is a function of
  the request, and is a rejection (\<open>Inl\<close>) or the \<^verbatim>\<open>data\<close> of the response.
\<close>

type_synonym fetch = "params \<Rightarrow> error + ArchivedProjectData"

text \<open>The state a promise ends in; \<open>Pending\<close> is a promise that never settles.\<close>

datatype 'a promise = Pending | Rejected error | Fulfilled 'a

text \<open>\<^verbatim>\<open>p.then(f)\<close>, where \<open>f\<close> may throw.\<close>

definition Promise_then :: "'a promise \<Rightarrow> ('a \<Rightarrow> error + 'b) \<Rightarrow> 'b promise" where
  "Promise_then p f =
     (case p of
        Pending \<Rightarrow> Pending
      | Rejected e \<Rightarrow> Rejected e
      | Fulfilled v \<Rightarrow> (case f v of Inl e \<Rightarrow> Rejected e | Inr y \<Rightarrow> Fulfilled y))"

text \<open>
  \<^verbatim>\<open>Promise.all(ps)\<close>. It rejects with the reason of the promise that rejects first
  in time: \<open>settle i\<close> is the instant at which the promise at position \<open>i\<close> settles.
  Without a rejection it stays pending while a promise is pending, and is
  fulfilled with the values in the order of the positions otherwise.
\<close>

definition rejections :: "'a promise list \<Rightarrow> (nat \<times> error) list" where
  "rejections ps = [(i, e). (i, Rejected e) \<leftarrow> enumerate 0 ps]"

definition Promise_all :: "(nat \<Rightarrow> nat) \<Rightarrow> 'a promise list \<Rightarrow> 'a list promise" where
  "Promise_all settle ps =
     (case rejections ps of
        r # rs \<Rightarrow> Rejected (snd (arg_min_list (\<lambda>(i, e). settle i) (r # rs)))
      | [] \<Rightarrow> if Pending \<in> set ps then Pending else Fulfilled [v. Fulfilled v \<leftarrow> ps])"

text \<open>A call either throws before it returns, or returns.\<close>

datatype 'a completion = Throws error | Returns 'a

text \<open>\<^verbatim>\<open>n.toString()\<close> for an integer \<open>n\<close>: its decimal digits, as JavaScript
  prints an integer below \<open>10^21\<close>.\<close>

fun digits :: "nat \<Rightarrow> jsstring" where
  "digits n = (if n < 10 then [of_nat (48 + n)] else digits (n div 10) @ [of_nat (48 + n mod 10)])"

declare digits.simps [simp del]

definition Number_toString :: "int \<Rightarrow> jsstring" where
  "Number_toString n = (if n < 0 then 0x2D # digits (nat (- n)) else digits (nat n))"

section \<open>Archive pagination\<close>

text \<open>
  The \<^verbatim>\<open>while (data.has_more)\<close> loop of \<^verbatim>\<open>_getArchivedProjectItems\<close>. \<open>calls\<close> is the
  list of the requests made so far. \<^verbatim>\<open>has_more\<close> is a field of every page, so
  \<^verbatim>\<open>Object.assign(data, nextData)\<close> leaves in \<^verbatim>\<open>data\<close> the fields of \<^verbatim>\<open>nextData\<close>,
  whose \<^verbatim>\<open>items\<close> the line before has replaced by the concatenation. A loop that
  never ends is \<open>None\<close>.
\<close>

partial_function (option) getArchivedProjectItems_loop ::
  "fetch \<Rightarrow> params \<Rightarrow> ArchivedProjectData \<Rightarrow> params list
     \<Rightarrow> (params list \<times> (error + ArchivedProjectData)) option"
where
  "getArchivedProjectItems_loop post params data calls =
     (if has_more data then
        (let params' = params\<lparr>cursor := next_cursor data\<rparr> in
         case post params' of
           Inl e \<Rightarrow> Some (calls @ [params'], Inl e)
         | Inr nextData \<Rightarrow>
             getArchivedProjectItems_loop post params'
               (nextData\<lparr>items := items data @ items nextData\<rparr>) (calls @ [params']))
      else Some (calls, Inr data))"

declare getArchivedProjectItems_loop.simps [code]

text \<open>
  \<^verbatim>\<open>_getArchivedProjectItems\<close> (a name cannot start with an underscore here): the
  requests it makes, in order, and what it settles to.
\<close>

definition getArchivedProjectItems ::
  "fetch \<Rightarrow> jsstring \<Rightarrow> jsstring \<Rightarrow> (params list \<times> (error + ArchivedProjectData)) option"
where
  "getArchivedProjectItems post paramKey paramValue =
     (if String_trim paramKey = [] then Some ([], Inl TypeError)
      else
        (let params = \<lparr>query_key = paramKey, query_value = paramValue, cursor = None\<rparr> in
         case post params of
           Inl e \<Rightarrow> Some ([params], Inl e)
         | Inr data \<Rightarrow> getArchivedProjectItems_loop post params data [params]))"

definition promise_of :: "('c \<times> (error + 'a)) option \<Rightarrow> 'a promise" where
  "promise_of r =
     (case r of None \<Rightarrow> Pending | Some (c, Inl e) \<Rightarrow> Rejected e | Some (c, Inr v) \<Rightarrow> Fulfilled v)"

definition getArchivedProjectItemsUnderProject :: "fetch \<Rightarrow> int \<Rightarrow> ArchivedProjectData promise" where
  "getArchivedProjectItemsUnderProject post projectId =
     promise_of (getArchivedProjectItems post (js ''project_id'') (Number_toString projectId))"

definition getArchivedProjectItemsUnderParentItem :: "fetch \<Rightarrow> int \<Rightarrow> ArchivedProjectData promise" where
  "getArchivedProjectItemsUnderParentItem post parentId' =
     promise_of (getArchivedProjectItems post (js ''parent_id'') (Number_toString parentId'))"

definition getArchivedProjectItemsUnderSection :: "fetch \<Rightarrow> int \<Rightarrow> ArchivedProjectData promise" where
  "getArchivedProjectItemsUnderSection post sectionId' =
     promise_of (getArchivedProjectItems post (js ''section_id'') (Number_toString sectionId'))"

section \<open>getSectionsGroupedByProjectId\<close>

text \<open>
  \<^verbatim>\<open>_getSections\<close>: \<open>sync\<close> is the answer to the request for the \<^verbatim>\<open>sections\<close>
  resource, a rejection or \<^verbatim>\<open>data.sections\<close>. The project id 0 is falsy and
  selects every section.
\<close>

definition getSections :: "error + Section list \<Rightarrow> int \<Rightarrow> error + Section list" where
  "getSections sync projectId =
     (case sync of
        Inl e \<Rightarrow> Inl e
      | Inr sections \<Rightarrow>
          Inr (if projectId \<noteq> 0
               then filter (\<lambda>section. project_id section = projectId) sections
               else sections))"

fun sections_reduce :: "SectionMap \<Rightarrow> Section list \<Rightarrow> error + SectionMap" where
  "sections_reduce sectionsMap [] = Inr sectionsMap"
| "sections_reduce sectionsMap (section # sections) =
     (if \<not> RegExp_test RE_IGNORE_SECTION (String_trim (name section)) then
        (case formatContent (name section) of
           Inl e \<Rightarrow> Inl e
         | Inr c \<Rightarrow>
             sections_reduce (obj_put (Some (Section.id' section)) (Parsed c) sectionsMap)
               sections)
      else sections_reduce sectionsMap sections)"

definition getSectionsGroupedByProjectId :: "error + Section list \<Rightarrow> int \<Rightarrow> error + SectionMap" where
  "getSectionsGroupedByProjectId sync projectId =
     (case getSections sync projectId of
        Inl e \<Rightarrow> Inl e
      | Inr sections \<Rightarrow> sections_reduce [(None, Label ROOT_SECTION)] sections)"

section \<open>getProjectArchivedTasks\<close>

definition getTasks :: "SectionMap option \<Rightarrow> ArchivedProjectData promise \<Rightarrow> Task list promise" where
  "getTasks sectionsNameById whenData =
     Promise_then whenData
       (\<lambda>data. map_sum (\<lambda>e. e) fst (formatProjectItems (items data) sectionsNameById))"

text \<open>\<^verbatim>\<open>Object.keys(projectSectionsNameById).map(Number)\<close>, after the key
  \<^verbatim>\<open>"null"\<close> has been taken out.\<close>

definition sectionsIds :: "SectionMap \<Rightarrow> int list" where
  "sectionsIds sectionsNameById = [n. Some n \<leftarrow> Object_keys (obj_rest None sectionsNameById)]"

definition whenAllKindTasks ::
  "fetch \<Rightarrow> int \<Rightarrow> SectionMap \<Rightarrow> int list option \<Rightarrow> Task list promise list"
where
  "whenAllKindTasks post projectId sectionsNameById parentIds =
     (let whenTasksByProjectId =
            getTasks (Some sectionsNameById) (getArchivedProjectItemsUnderProject post projectId);
          whenTasksBySectionId =
            map (\<lambda>sectionId. getTasks (Some sectionsNameById)
                   (getArchivedProjectItemsUnderSection post sectionId))
              (sectionsIds sectionsNameById)
      in [whenTasksByProjectId] @ whenTasksBySectionId
         @ (case parentIds of
              None \<Rightarrow> []
            | Some ids \<Rightarrow>
                map (\<lambda>parentId. getTasks (Some sectionsNameById)
                       (getArchivedProjectItemsUnderParentItem post parentId)) ids))"

text \<open>
  The requests that have been issued when the call completes: the first request
  of each query, in the order in which the queries are started.
\<close>

definition issued :: "int \<Rightarrow> SectionMap \<Rightarrow> int list option \<Rightarrow> params list" where
  "issued projectId sectionsNameById parentIds =
     [\<lparr>query_key = js ''project_id'', query_value = Number_toString projectId, cursor = None\<rparr>]
     @ map (\<lambda>sectionId. \<lparr>query_key = js ''section_id'', query_value = Number_toString sectionId,
                          cursor = None\<rparr>) (sectionsIds sectionsNameById)
     @ map (\<lambda>parentId. \<lparr>query_key = js ''parent_id'', query_value = Number_toString parentId,
                         cursor = None\<rparr>) (case parentIds of None \<Rightarrow> [] | Some ids \<Rightarrow> ids)"

text \<open>
  \<^verbatim>\<open>getProjectArchivedTasks\<close> is not an \<^verbatim>\<open>async\<close> function: destructuring an
  \<^verbatim>\<open>undefined\<close> \<^verbatim>\<open>sectionsNameById\<close> throws out of the call. The result is the
  list of the requests issued during the call, and how the call completes.
\<close>

definition getProjectArchivedTasks ::
  "fetch \<Rightarrow> (nat \<Rightarrow> nat) \<Rightarrow> int \<Rightarrow> SectionMap option \<Rightarrow> int list option
     \<Rightarrow> params list \<times> Task list promise completion"
where
  "getProjectArchivedTasks post settle projectId sectionsNameById parentIds =
     (case sectionsNameById of
        None \<Rightarrow> ([], Throws TypeError)
      | Some m \<Rightarrow>
          (issued projectId m parentIds,
           Returns (Promise_then (Promise_all settle (whenAllKindTasks post projectId m parentIds))
                      (\<lambda>fulfilledPromises. Inr (concat fulfilledPromises)))))"

section \<open>Example data\<close>

definition itemA :: RawItem where
  "itemA = \<lparr>RawItem.id' = 1, parent_id = None, section_id = Some 7, content = js ''Groceries'',
     checked = 0, date_added = js ''2020-03-15T10:00:00Z'', priority = 1\<rparr>"

definition itemB :: RawItem where
  "itemB = \<lparr>RawItem.id' = 2, parent_id = Some 1, section_id = Some 7,
     content = js ''Old list '' @ [0x2716],
     checked = 0, date_added = js ''2020-03-16T10:00:00Z'', priority = 1\<rparr>"

definition itemC :: RawItem where
  "itemC = \<lparr>RawItem.id' = 3, parent_id = Some 2, section_id = Some 7, content = js ''Stale bread'',
     checked = 1, date_added = js ''2020-03-17T10:00:00Z'', priority = 1\<rparr>"

definition itemD :: RawItem where
  "itemD = \<lparr>RawItem.id' = 4, parent_id = None, section_id = Some 7, content = js ''Laundry'',
     checked = 1, date_added = js ''2020-03-18T10:00:00Z'', priority = 2\<rparr>"

definition taskA :: Task where
  "taskA = \<lparr>Task.checked = False, dateAdded = js ''03 2020, 15'', id' = 1, parentId = None,
     sectionId = Some 7, priority = 1,
     content = \<lparr>text = Some (js ''Groceries''), tag = None, link = None\<rparr>\<rparr>"

definition taskD :: Task where
  "taskD = \<lparr>Task.checked = True, dateAdded = js ''03 2020, 18'', id' = 4, parentId = None,
     sectionId = Some 7, priority = 2,
     content = \<lparr>text = Some (js ''Laundry''), tag = None, link = None\<rparr>\<rparr>"

definition sectionMap7 :: SectionMap where
  "sectionMap7 = [(None, Label ROOT_SECTION),
     (Some 7, Parsed \<lparr>text = Some (js ''Home''), tag = None, link = None\<rparr>)]"

definition page1 :: ArchivedProjectData where
  "page1 = \<lparr>items = [itemA, itemB], has_more = True, next_cursor = Some (js ''c1'')\<rparr>"

definition page2 :: ArchivedProjectData where
  "page2 = \<lparr>items = [itemC, itemD], has_more = False, next_cursor = None\<rparr>"

definition twoPages :: fetch where
  "twoPages p =
     (if cursor p = None then Inr page1
      else if cursor p = Some (js ''c1'') then Inr page2
      else Inl (FetchError (js ''unknown cursor'')))"

definition sectionDown :: fetch where
  "sectionDown p =
     (if query_key p = js ''section_id'' then Inl (FetchError (js ''503''))
      else Inr \<lparr>items = [itemD], has_more = False, next_cursor = None\<rparr>)"

definition sectionMap97 :: SectionMap where
  "sectionMap97 = [(None, Label ROOT_SECTION),
     (Some 9, Parsed \<lparr>text = Some (js ''Work''), tag = None, link = None\<rparr>),
     (Some 7, Parsed \<lparr>text = Some (js ''Home''), tag = None, link = None\<rparr>)]"

definition byQuery :: fetch where
  "byQuery p =
     Inr \<lparr>items =
            (if query_value p = js ''5'' then [itemA]
             else if query_value p = js ''7'' then [itemD]
             else if query_value p = js ''9'' then [itemA, itemD]
             else []),
          has_more = False, next_cursor = None\<rparr>"

definition itemE :: RawItem where
  "itemE = \<lparr>RawItem.id' = 5, parent_id = None, section_id = Some 7, content = js ''Fruits:'',
     checked = 0, date_added = js ''2020-03-19T10:00:00Z'', priority = 1\<rparr>"

section \<open>Analysis of regular expressions\<close>

text \<open>The group numbers of a regular expression; whether every match of it
  takes at least one code unit; whether every match of it leaves group \<open>i\<close> set
  to a non-empty string; whether it is free of \<^verbatim>\<open>$\<close>; whether it ends in \<^verbatim>\<open>$\<close>.\<close>

fun groups :: "regex \<Rightarrow> nat set" where
  "groups (Group i r) = insert i (groups r)"
| "groups (Seq r1 r2) = groups r1 \<union> groups r2"
| "groups (Opt r) = groups r"
| "groups r = {}"

fun consuming :: "regex \<Rightarrow> bool" where
  "consuming (Chr x) = True"
| "consuming (Cls p) = True"
| "consuming (Plus p) = True"
| "consuming (Rep n p) = (0 < n)"
| "consuming (Seq r1 r2) = (consuming r1 \<or> consuming r2)"
| "consuming (Group i r) = consuming r"
| "consuming r = False"

fun capturing :: "nat \<Rightarrow> regex \<Rightarrow> bool" where
  "capturing i (Group j r) = (if j = i then consuming r else capturing i r)"
| "capturing i (Seq r1 r2) = (capturing i r2 \<or> (capturing i r1 \<and> i \<notin> groups r2))"
| "capturing i r = False"

fun eol_free :: "regex \<Rightarrow> bool" where
  "eol_free Eol = False"
| "eol_free (Opt r) = eol_free r"
| "eol_free (Seq r1 r2) = (eol_free r1 \<and> eol_free r2)"
| "eol_free (Group i r) = eol_free r"
| "eol_free r = True"

fun ends_eol :: "regex \<Rightarrow> bool" where
  "ends_eol Eol = True"
| "ends_eol (Seq r1 r2) = (ends_eol r2 \<or> (r2 = Empty \<and> ends_eol r1))"
| "ends_eol (Group i r) = ends_eol r"
| "ends_eol r = False"

text \<open>The state \<open>st\<close> with \<open>u\<close> appended to the input.\<close>

definition extend :: "jsstring \<Rightarrow> mstate \<Rightarrow> mstate" where
  "extend u st = MState (before st) (after st @ u) (caps st)"

definition exampleSections :: "Section list" where
  "exampleSections =
     [\<lparr>Section.id' = 3, name = js ''Work'', project_id = 1\<rparr>,
      \<lparr>Section.id' = 4, name = js ''Old '' @ [0x2716, 0x20], project_id = 1\<rparr>,
      \<lparr>Section.id' = 5, name = js ''Elsewhere'', project_id = 2\<rparr>]"

text \<open>The first state that the matcher lists: the match that a search from this
  state returns.\<close>

definition first_match :: "regex \<Rightarrow> mstate \<Rightarrow> mstate \<Rightarrow> bool" where
  "first_match r st st' \<longleftrightarrow> (\<exists>rest. ms r st = st' # rest)"

section \<open>Properties of formatDate\<close>

text \<open>
  C2. A date that begins with \<^verbatim>\<open>2020-03-15\<close>: \<^verbatim>\<open>formatDate\<close> names the year group
  \<^verbatim>\<open>day\<close> and the day group \<^verbatim>\<open>year\<close>, so \<^verbatim>\<open>dateAdded\<close> is the month, then the
  year, then a comma and the day, \<^verbatim>\<open>"03 2020, 15"\<close>, where the specification has the month,
  the day, a comma and the year.
\<close>

theorem formatDate_month_year_day:
  "formatDate (js ''2020-03-15T10:00:00Z'') = Inr (js ''03 2020, 15'') \<and>
   formatProjectItems
     [\<lparr>RawItem.id' = 1, parent_id = None, section_id = None, content = js ''Buy milk'',
       checked = 0, date_added = js ''2020-03-15T10:00:00Z'', priority = 1\<rparr>] None =
     Inr ([\<lparr>Task.checked = False, dateAdded = js ''03 2020, 15'', id' = 1, parentId = None,
            sectionId = None, priority = 1,
            content = \<lparr>text = Some (js ''Buy milk''), tag = None, link = None\<rparr>\<rparr>], [])"
  by code_simp

section \<open>Properties of formatProjectItems\<close>

lemma formatItem_itemA: "formatItem itemA = Inr taskA"
  by code_simp

lemma formatItem_itemD: "formatItem itemD = Inr taskD"
  by code_simp

text \<open>
  C3. For the list \<open>[A, B, C, D]\<close> whose section keys are in the section map, with
  \<open>A\<close> and \<open>D\<close> at the root, \<open>B\<close> a child of \<open>A\<close> whose content ends in the ignore
  glyph and \<open>C\<close> a child of \<open>B\<close>, where \<open>A\<close> and \<open>D\<close> are neither ignored nor
  categories and \<open>C\<close> is not a category: \<^verbatim>\<open>formatProjectItems\<close> returns the tasks
  of \<open>A\<close> and \<open>D\<close> in this order and no category id; nothing is emitted for \<open>B\<close> and
  \<open>C\<close>.
\<close>

theorem formatProjectItems_ignored_subtree:
  assumes sec: "obj_has (section_id A) sm" "obj_has (section_id B) sm"
      "obj_has (section_id C) sm" "obj_has (section_id D) sm"
    and par: "parent_id A = None" "parent_id B = Some (RawItem.id' A)"
      "parent_id C = Some (RawItem.id' B)" "parent_id D = None"
    and ign: "RegExp_test RE_IGNORE_ITEM (RawItem.content B)"
    and plainA: "\<not> RegExp_test RE_IGNORE_ITEM (RawItem.content A)"
      "\<not> RegExp_test RE_CATEGORY_ITEM (RawItem.content A)"
    and plainC: "\<not> RegExp_test RE_CATEGORY_ITEM (RawItem.content C)"
    and plainD: "\<not> RegExp_test RE_IGNORE_ITEM (RawItem.content D)"
      "\<not> RegExp_test RE_CATEGORY_ITEM (RawItem.content D)"
    and fmt: "formatItem A = Inr tA" "formatItem D = Inr tD"
  shows "formatProjectItems [A, B, C, D] (Some sm) = Inr ([tA, tD], [])"
  using assms by (simp add: formatProjectItems_def Let_def)

theorem formatProjectItems_ignored_subtree_witness:
  "RegExp_test RE_IGNORE_ITEM (RawItem.content itemB) \<and>
   formatProjectItems [itemA, itemB, itemC, itemD] (Some sectionMap7) = Inr ([taskA, taskD], [])"
proof
  show ign: "RegExp_test RE_IGNORE_ITEM (RawItem.content itemB)"
    by code_simp
  show "formatProjectItems [itemA, itemB, itemC, itemD] (Some sectionMap7) =
          Inr ([taskA, taskD], [])"
  proof (rule formatProjectItems_ignored_subtree
      [OF _ _ _ _ _ _ _ _ ign _ _ _ _ _ formatItem_itemA formatItem_itemD])
  qed code_simp+
qed

section \<open>Properties of the archive pagination\<close>

text \<open>The loop, started on a page \<open>p\<close> that is followed by the pages \<open>ps\<close>.\<close>

lemma loop_pages:
  "\<lbrakk>has_more data = has_more p; next_cursor data = next_cursor p;
    \<forall>i. Suc i < length (p # ps) \<longrightarrow>
      has_more ((p # ps) ! i) \<and>
      post (P\<lparr>cursor := next_cursor ((p # ps) ! i)\<rparr>) = Inr ((p # ps) ! Suc i);
    \<not> has_more (last (p # ps))\<rbrakk>
   \<Longrightarrow> getArchivedProjectItems_loop post (P\<lparr>cursor := c0\<rparr>) data calls =
       Some (calls @ map (\<lambda>q. P\<lparr>cursor := next_cursor q\<rparr>) (butlast (p # ps)),
             Inr ((last (p # ps))\<lparr>items := items data @ concat (map items ps)\<rparr>))"
proof (induction ps arbitrary: p data calls c0)
  case Nil
  then have "\<not> has_more data" by simp
  moreover have "data = p\<lparr>items := items data\<rparr>"
    using Nil.prems(1,2) by (cases data, cases p) simp
  ultimately show ?case
    by (subst getArchivedProjectItems_loop.simps) simp
next
  case (Cons q ps)
  from Cons.prems(3) [rule_format, of 0]
  have hm: "has_more p" and nxt: "post (P\<lparr>cursor := next_cursor p\<rparr>) = Inr q"
    by simp_all
  have step: "\<forall>i. Suc i < length (q # ps) \<longrightarrow>
      has_more ((q # ps) ! i) \<and>
      post (P\<lparr>cursor := next_cursor ((q # ps) ! i)\<rparr>) = Inr ((q # ps) ! Suc i)"
  proof (intro allI impI)
    fix i assume "Suc i < length (q # ps)"
    then have "Suc (Suc i) < length (p # q # ps)" by simp
    from Cons.prems(3) [rule_format, OF this]
    show "has_more ((q # ps) ! i) \<and>
      post (P\<lparr>cursor := next_cursor ((q # ps) ! i)\<rparr>) = Inr ((q # ps) ! Suc i)"
      by simp
  qed
  have lst: "\<not> has_more (last (q # ps))"
    using Cons.prems(4) by simp
  have IH: "getArchivedProjectItems_loop post (P\<lparr>cursor := next_cursor p\<rparr>)
        (q\<lparr>items := items data @ items q\<rparr>) (calls @ [P\<lparr>cursor := next_cursor p\<rparr>]) =
       Some ((calls @ [P\<lparr>cursor := next_cursor p\<rparr>])
               @ map (\<lambda>q. P\<lparr>cursor := next_cursor q\<rparr>) (butlast (q # ps)),
             Inr ((last (q # ps))\<lparr>items := items (q\<lparr>items := items data @ items q\<rparr>)
                @ concat (map items ps)\<rparr>))"
    by (rule Cons.IH [OF _ _ step lst]) simp_all
  show ?case
    apply (subst getArchivedProjectItems_loop.simps)
    using hm nxt Cons.prems(1,2) IH
    by (simp add: Let_def)
qed

text \<open>
  C5. Let the fetch capability answer the first request of the query \<open>(k, v)\<close>
  with the page \<open>ps ! 0\<close> and the request with the cursor of page \<open>ps ! i\<close> with the
  page \<open>ps ! (i + 1)\<close>, where every page but the last has its \<^verbatim>\<open>has_more\<close> flag set
  and the last has not. Then \<^verbatim>\<open>_getArchivedProjectItems\<close> returns: it makes one
  request per page, the first without a cursor and each next one with the cursor
  of the page before, and the items of its result are the items of all the pages
  in this order. For two pages these are two requests and the items of page 1
  followed by those of page 2.
\<close>

theorem getArchivedProjectItems_pages:
  assumes key: "String_trim k \<noteq> []"
    and ne: "ps \<noteq> []"
    and first: "post \<lparr>query_key = k, query_value = v, cursor = None\<rparr> = Inr (hd ps)"
    and chain: "\<forall>i. Suc i < length ps \<longrightarrow>
        has_more (ps ! i) \<and>
        post \<lparr>query_key = k, query_value = v, cursor = next_cursor (ps ! i)\<rparr> = Inr (ps ! Suc i)"
    and final: "\<not> has_more (last ps)"
  shows "getArchivedProjectItems post k v =
     Some (\<lparr>query_key = k, query_value = v, cursor = None\<rparr>
             # map (\<lambda>p. \<lparr>query_key = k, query_value = v, cursor = next_cursor p\<rparr>) (butlast ps),
           Inr \<lparr>items = concat (map items ps), has_more = False,
                next_cursor = next_cursor (last ps)\<rparr>)"
proof -
  obtain p qs where ps: "ps = p # qs"
    using ne by (cases ps) auto
  let ?P = "\<lparr>query_key = k, query_value = v, cursor = None\<rparr>"
  have "getArchivedProjectItems_loop post (?P\<lparr>cursor := None\<rparr>) p [?P] =
       Some ([?P] @ map (\<lambda>q. ?P\<lparr>cursor := next_cursor q\<rparr>) (butlast (p # qs)),
             Inr ((last (p # qs))\<lparr>items := items p @ concat (map items qs)\<rparr>))"
    using chain final unfolding ps by (intro loop_pages) simp_all
  moreover have "(last (p # qs))\<lparr>items := items p @ concat (map items qs)\<rparr> =
      \<lparr>items = concat (map items ps), has_more = False, next_cursor = next_cursor (last ps)\<rparr>"
    using final unfolding ps by (cases "last (p # qs)") simp
  ultimately show ?thesis
    using key first unfolding ps by (simp add: getArchivedProjectItems_def)
qed

theorem getArchivedProjectItems_pages_witness:
  "getArchivedProjectItems twoPages (js ''project_id'') (js ''12'') =
     Some ([\<lparr>query_key = js ''project_id'', query_value = js ''12'', cursor = None\<rparr>,
            \<lparr>query_key = js ''project_id'', query_value = js ''12'', cursor = Some (js ''c1'')\<rparr>],
           Inr \<lparr>items = [itemA, itemB, itemC, itemD], has_more = False, next_cursor = None\<rparr>)"
proof -
  have 1: "String_trim (js ''project_id'') \<noteq> []"
    by code_simp
  have 2: "[page1, page2] \<noteq> []"
    by simp
  have 3: "twoPages \<lparr>query_key = js ''project_id'', query_value = js ''12'', cursor = None\<rparr> =
      Inr (hd [page1, page2])"
    by (simp add: twoPages_def)
  have 4: "\<forall>i. Suc i < length [page1, page2] \<longrightarrow>
      has_more ([page1, page2] ! i) \<and>
      twoPages \<lparr>query_key = js ''project_id'', query_value = js ''12'',
                cursor = next_cursor ([page1, page2] ! i)\<rparr> = Inr ([page1, page2] ! Suc i)"
    by (simp add: twoPages_def page1_def)
  have 5: "\<not> has_more (last [page1, page2])"
    by (simp add: page2_def)
  show ?thesis
    using getArchivedProjectItems_pages [OF 1 2 3 4 5]
    by (simp add: page1_def page2_def)
qed

section \<open>Properties of getProjectArchivedTasks\<close>

text \<open>
  C9. Called with an \<^verbatim>\<open>undefined\<close> section map, \<^verbatim>\<open>getProjectArchivedTasks\<close> throws
  a TypeError out of the call, whatever the fetch capability, the project and the
  parent ids are, and no request has been issued.
\<close>

theorem getProjectArchivedTasks_undefined_map_throws:
  "getProjectArchivedTasks post settle projectId None parentIds = ([], Throws TypeError)"
  by (simp add: getProjectArchivedTasks_def)

text \<open>Promise.all: what it settles to.\<close>

lemma set_rejections:
  "set (rejections ps) = {(i, e). i < length ps \<and> ps ! i = Rejected e}"
  by (auto simp: rejections_def in_set_enumerate_eq split: promise.splits)

lemma rejections_map_Fulfilled: "rejections (map Fulfilled vs) = []"
proof -
  have "set (rejections (map Fulfilled vs)) = {}"
    by (auto simp: set_rejections)
  then show ?thesis by simp
qed

lemma fulfilled_values: "[v. Fulfilled v \<leftarrow> map Fulfilled vs] = vs"
  by (induction vs) simp_all

lemma Promise_all_Fulfilled: "Promise_all settle (map Fulfilled vs) = Fulfilled vs"
proof -
  have "Pending \<notin> set (map Fulfilled vs)" by auto
  then show ?thesis
    unfolding Promise_all_def rejections_map_Fulfilled fulfilled_values by simp
qed

lemma Promise_all_Rejected:
  assumes "Rejected e \<in> set ps"
  shows "\<exists>e'. Rejected e' \<in> set ps \<and> Promise_all settle ps = Rejected e'"
proof -
  from assms obtain i where "i < length ps" "ps ! i = Rejected e"
    by (auto simp: in_set_conv_nth)
  then have "(i, e) \<in> set (rejections ps)"
    by (simp add: set_rejections)
  then obtain r rs where rj: "rejections ps = r # rs"
    by (cases "rejections ps") auto
  define w where "w = arg_min_list (\<lambda>(i, e). settle i) (r # rs)"
  have "w \<in> set (rejections ps)"
    unfolding w_def rj by (rule arg_min_list_in) simp
  then have "fst w < length ps \<and> ps ! fst w = Rejected (snd w)"
    unfolding set_rejections by (cases w) simp
  then have "Rejected (snd w) \<in> set ps"
    by (metis nth_mem)
  moreover have "Promise_all settle ps = Rejected (snd w)"
    by (simp add: Promise_all_def rj w_def)
  ultimately show ?thesis by blast
qed

lemma getTasks_Rejected: "getTasks m (Rejected e) = Rejected e"
  by (simp add: getTasks_def Promise_then_def)

text \<open>
  C6. If one of the queries of the fan-out (the query by project, a query by
  section, a query by parent) rejects with the error \<open>e\<close>, then, whatever the order
  in which the promises settle, \<^verbatim>\<open>getProjectArchivedTasks\<close> returns a promise that
  rejects, and it rejects with the error, unmodified, of one of the rejected
  promises given to \<^verbatim>\<open>Promise.all\<close>: with \<open>e\<close> itself when no promise rejects with
  another error. It is never fulfilled with a list of tasks.
\<close>

theorem getProjectArchivedTasks_fail_fast:
  assumes "getArchivedProjectItemsUnderProject post projectId = Rejected e \<or>
      (\<exists>s \<in> set (sectionsIds m). getArchivedProjectItemsUnderSection post s = Rejected e) \<or>
      (\<exists>ids. parentIds = Some ids \<and>
         (\<exists>p \<in> set ids. getArchivedProjectItemsUnderParentItem post p = Rejected e))"
  shows "(\<exists>e'. Rejected e' \<in> set (whenAllKindTasks post projectId m parentIds) \<and>
            getProjectArchivedTasks post settle projectId (Some m) parentIds =
              (issued projectId m parentIds, Returns (Rejected e'))) \<and>
         ((\<forall>e'. Rejected e' \<in> set (whenAllKindTasks post projectId m parentIds) \<longrightarrow> e' = e) \<longrightarrow>
            getProjectArchivedTasks post settle projectId (Some m) parentIds =
              (issued projectId m parentIds, Returns (Rejected e)))"
proof -
  let ?ps = "whenAllKindTasks post projectId m parentIds"
  have "Rejected e \<in> set ?ps"
    using assms
  proof (elim disjE bexE exE conjE)
    assume "getArchivedProjectItemsUnderProject post projectId = Rejected e"
    then show ?thesis
      by (simp add: whenAllKindTasks_def Let_def getTasks_Rejected)
  next
    fix s assume "s \<in> set (sectionsIds m)"
      "getArchivedProjectItemsUnderSection post s = Rejected e"
    then have "Rejected e \<in> (\<lambda>s. getTasks (Some m)
        (getArchivedProjectItemsUnderSection post s)) ` set (sectionsIds m)"
      by (metis getTasks_Rejected imageI)
    then show ?thesis
      by (simp add: whenAllKindTasks_def Let_def)
  next
    fix ids p assume "parentIds = Some ids" "p \<in> set ids"
      "getArchivedProjectItemsUnderParentItem post p = Rejected e"
    then have "parentIds = Some ids" "Rejected e \<in> (\<lambda>p. getTasks (Some m)
        (getArchivedProjectItemsUnderParentItem post p)) ` set ids"
      by (metis, metis getTasks_Rejected imageI)
    then show ?thesis
      by (simp add: whenAllKindTasks_def Let_def)
  qed
  from Promise_all_Rejected [OF this, of settle]
  obtain e' where e': "Rejected e' \<in> set ?ps" "Promise_all settle ?ps = Rejected e'"
    by blast
  then have "getProjectArchivedTasks post settle projectId (Some m) parentIds =
      (issued projectId m parentIds, Returns (Rejected e'))"
    by (simp add: getProjectArchivedTasks_def Promise_then_def)
  with e' show ?thesis by auto
qed

lemma whenAllKindTasks_sectionDown:
  "whenAllKindTasks sectionDown 5 sectionMap7 None =
     [Fulfilled [taskD], Rejected (FetchError (js ''503''))]"
  by code_simp

theorem getProjectArchivedTasks_fail_fast_witness:
  "getArchivedProjectItemsUnderSection sectionDown 7 = Rejected (FetchError (js ''503'')) \<and>
   getProjectArchivedTasks sectionDown (\<lambda>i. i) 5 (Some sectionMap7) None =
     (issued 5 sectionMap7 None, Returns (Rejected (FetchError (js ''503''))))"
proof -
  have ids: "sectionsIds sectionMap7 = [7]"
    by code_simp
  have rej: "getArchivedProjectItemsUnderSection sectionDown 7 = Rejected (FetchError (js ''503''))"
    by code_simp
  have "getArchivedProjectItemsUnderProject sectionDown 5 = Rejected (FetchError (js ''503'')) \<or>
      (\<exists>s \<in> set (sectionsIds sectionMap7).
         getArchivedProjectItemsUnderSection sectionDown s = Rejected (FetchError (js ''503''))) \<or>
      (\<exists>ids. None = Some ids \<and>
         (\<exists>p \<in> set ids.
            getArchivedProjectItemsUnderParentItem sectionDown p = Rejected (FetchError (js ''503''))))"
    using rej by (simp add: ids)
  from getProjectArchivedTasks_fail_fast [OF this, of "\<lambda>i. i"] rej
  show ?thesis
    by (simp add: whenAllKindTasks_sectionDown)
qed

text \<open>
  C10. If every promise of the fan-out is fulfilled, then, whatever the order in
  which they settle, the list that \<^verbatim>\<open>getProjectArchivedTasks\<close> is fulfilled with is
  the tasks of the query by project, then those of each section in the order of
  \<^verbatim>\<open>Object.keys\<close> on the section map without its key \<^verbatim>\<open>"null"\<close>, then those of each
  parent in the order of \<^verbatim>\<open>parentIds\<close>.
\<close>

theorem getProjectArchivedTasks_order:
  assumes "getTasks (Some m) (getArchivedProjectItemsUnderProject post projectId) = Fulfilled tp"
    and "\<forall>s \<in> set (sectionsIds m).
           getTasks (Some m) (getArchivedProjectItemsUnderSection post s) = Fulfilled (ts s)"
    and "\<forall>p \<in> set (case parentIds of None \<Rightarrow> [] | Some ids \<Rightarrow> ids).
           getTasks (Some m) (getArchivedProjectItemsUnderParentItem post p) = Fulfilled (ta p)"
  shows "getProjectArchivedTasks post settle projectId (Some m) parentIds =
     (issued projectId m parentIds,
      Returns (Fulfilled (tp @ concat (map ts (sectionsIds m))
         @ concat (map ta (case parentIds of None \<Rightarrow> [] | Some ids \<Rightarrow> ids)))))"
proof -
  have "whenAllKindTasks post projectId m parentIds =
      map Fulfilled (tp # map ts (sectionsIds m)
        @ map ta (case parentIds of None \<Rightarrow> [] | Some ids \<Rightarrow> ids))"
    using assms by (auto simp: whenAllKindTasks_def Let_def split: option.splits)
  then have "Promise_all settle (whenAllKindTasks post projectId m parentIds) =
      Fulfilled (tp # map ts (sectionsIds m)
        @ map ta (case parentIds of None \<Rightarrow> [] | Some ids \<Rightarrow> ids))"
    by (simp only: Promise_all_Fulfilled)
  then show ?thesis
    by (simp add: getProjectArchivedTasks_def Promise_then_def)
qed

lemma sectionsIds_sectionMap97: "sectionsIds sectionMap97 = [7, 9]"
  by code_simp

theorem getProjectArchivedTasks_order_witness:
  "sectionsIds sectionMap97 = [7, 9] \<and>
   getProjectArchivedTasks byQuery (\<lambda>i. 3 - i) 5 (Some sectionMap97) (Some [3]) =
     (issued 5 sectionMap97 (Some [3]), Returns (Fulfilled [taskA, taskD, taskA, taskD]))"
proof -
  have p: "getTasks (Some sectionMap97) (getArchivedProjectItemsUnderProject byQuery 5) =
      Fulfilled [taskA]"
    by code_simp
  have s7: "getTasks (Some sectionMap97) (getArchivedProjectItemsUnderSection byQuery 7) =
      Fulfilled [taskD]"
    by code_simp
  have s9: "getTasks (Some sectionMap97) (getArchivedProjectItemsUnderSection byQuery 9) =
      Fulfilled [taskA, taskD]"
    by code_simp
  have a3: "getTasks (Some sectionMap97) (getArchivedProjectItemsUnderParentItem byQuery 3) =
      Fulfilled []"
    by code_simp
  have s: "\<forall>s \<in> set (sectionsIds sectionMap97).
      getTasks (Some sectionMap97) (getArchivedProjectItemsUnderSection byQuery s) =
        Fulfilled (if s = 7 then [taskD] else [taskA, taskD])"
    using s7 s9 by (simp add: sectionsIds_sectionMap97)
  have a: "\<forall>p \<in> set (case Some [3] of None \<Rightarrow> [] | Some ids \<Rightarrow> ids).
      getTasks (Some sectionMap97) (getArchivedProjectItemsUnderParentItem byQuery p) =
        Fulfilled []"
    using a3 by simp
  from getProjectArchivedTasks_order [OF p s a, of "\<lambda>i. 3 - i"]
  show ?thesis
    by (simp add: sectionsIds_sectionMap97)
qed

section \<open>Categories and tasks\<close>

lemma formatItem_id: "formatItem it = Inr t \<Longrightarrow> Task.id' t = RawItem.id' it"
  by (auto simp: formatItem_def split: sum.splits)

lemma loop_inv:
  "formatProjectItems_loop M its sel cats lst = Inr (tasks, cats') \<Longrightarrow>
   \<exists>kept cs. subseq kept its \<and> subseq cs its \<and>
     map Inr tasks = map Inr sel @ map formatItem kept \<and>
     cats' = cats @ map RawItem.id' cs \<and>
     (\<forall>it \<in> set kept. \<not> RegExp_test RE_CATEGORY_ITEM (RawItem.content it)) \<and>
     (\<forall>it \<in> set cs. RegExp_test RE_CATEGORY_ITEM (RawItem.content it)) \<and>
     (\<forall>it \<in> set its. obj_has (section_id it) M \<and>
        \<not> RegExp_test RE_IGNORE_ITEM (RawItem.content it) \<and>
        RegExp_test RE_CATEGORY_ITEM (RawItem.content it) \<longrightarrow> it \<in> set cs)"
proof (induction its arbitrary: sel cats lst)
  case Nil
  then show ?case by simp
next
  case (Cons item its)
  let ?cat = "RegExp_test RE_CATEGORY_ITEM (RawItem.content item)"
  let ?ign = "RegExp_test RE_IGNORE_ITEM (RawItem.content item)"
  let ?sec = "obj_has (section_id item) M"
  let ?skipped = "parent_id item = Some lst"
  consider (drop) "\<not> ?sec \<or> ?ign" | (category) "?sec" "\<not> ?ign" "?cat"
    | (skipped) "?sec" "\<not> ?ign" "\<not> ?cat" "?skipped"
    | (emit) "?sec" "\<not> ?ign" "\<not> ?cat" "\<not> ?skipped"
    by blast
  then show ?case
  proof cases
    case drop
    then obtain lst' where "formatProjectItems_loop M its sel cats lst' = Inr (tasks, cats')"
      using Cons.prems by (auto simp: Let_def split: if_splits)
    from Cons.IH [OF this] obtain kept cs where
      "subseq kept its" "subseq cs its"
      "map Inr tasks = map Inr sel @ map formatItem kept"
      "cats' = cats @ map RawItem.id' cs"
      "\<forall>it \<in> set kept. \<not> RegExp_test RE_CATEGORY_ITEM (RawItem.content it)"
      "\<forall>it \<in> set cs. RegExp_test RE_CATEGORY_ITEM (RawItem.content it)"
      "\<forall>it \<in> set its. obj_has (section_id it) M \<and>
        \<not> RegExp_test RE_IGNORE_ITEM (RawItem.content it) \<and>
        RegExp_test RE_CATEGORY_ITEM (RawItem.content it) \<longrightarrow> it \<in> set cs"
      by blast
    with drop show ?thesis
      by (intro exI [of _ kept] exI [of _ cs]) auto
  next
    case category
    then obtain lst' where
      "formatProjectItems_loop M its sel (cats @ [RawItem.id' item]) lst' = Inr (tasks, cats')"
      using Cons.prems by (auto simp: Let_def split: if_splits)
    from Cons.IH [OF this] obtain kept cs where
      "subseq kept its" "subseq cs its"
      "map Inr tasks = map Inr sel @ map formatItem kept"
      "cats' = (cats @ [RawItem.id' item]) @ map RawItem.id' cs"
      "\<forall>it \<in> set kept. \<not> RegExp_test RE_CATEGORY_ITEM (RawItem.content it)"
      "\<forall>it \<in> set cs. RegExp_test RE_CATEGORY_ITEM (RawItem.content it)"
      "\<forall>it \<in> set its. obj_has (section_id it) M \<and>
        \<not> RegExp_test RE_IGNORE_ITEM (RawItem.content it) \<and>
        RegExp_test RE_CATEGORY_ITEM (RawItem.content it) \<longrightarrow> it \<in> set cs"
      by blast
    with category show ?thesis
      by (intro exI [of _ kept] exI [of _ "item # cs"]) auto
  next
    case skipped
    then obtain lst' where "formatProjectItems_loop M its sel cats lst' = Inr (tasks, cats')"
      using Cons.prems by (auto simp: Let_def split: if_splits)
    from Cons.IH [OF this] obtain kept cs where
      "subseq kept its" "subseq cs its"
      "map Inr tasks = map Inr sel @ map formatItem kept"
      "cats' = cats @ map RawItem.id' cs"
      "\<forall>it \<in> set kept. \<not> RegExp_test RE_CATEGORY_ITEM (RawItem.content it)"
      "\<forall>it \<in> set cs. RegExp_test RE_CATEGORY_ITEM (RawItem.content it)"
      "\<forall>it \<in> set its. obj_has (section_id it) M \<and>
        \<not> RegExp_test RE_IGNORE_ITEM (RawItem.content it) \<and>
        RegExp_test RE_CATEGORY_ITEM (RawItem.content it) \<longrightarrow> it \<in> set cs"
      by blast
    with skipped show ?thesis
      by (intro exI [of _ kept] exI [of _ cs]) auto
  next
    case emit
    then obtain t lst' where t: "formatItem item = Inr t"
      and "formatProjectItems_loop M its (sel @ [t]) cats lst' = Inr (tasks, cats')"
      using Cons.prems by (cases "formatItem item") (auto simp: Let_def split: if_splits)
    from Cons.IH [OF this(2)] obtain kept cs where
      "subseq kept its" "subseq cs its"
      "map Inr tasks = map Inr (sel @ [t]) @ map formatItem kept"
      "cats' = cats @ map RawItem.id' cs"
      "\<forall>it \<in> set kept. \<not> RegExp_test RE_CATEGORY_ITEM (RawItem.content it)"
      "\<forall>it \<in> set cs. RegExp_test RE_CATEGORY_ITEM (RawItem.content it)"
      "\<forall>it \<in> set its. obj_has (section_id it) M \<and>
        \<not> RegExp_test RE_IGNORE_ITEM (RawItem.content it) \<and>
        RegExp_test RE_CATEGORY_ITEM (RawItem.content it) \<longrightarrow> it \<in> set cs"
      by blast
    with emit t show ?thesis
      by (intro exI [of _ "item # kept"] exI [of _ cs]) auto
  qed
qed

text \<open>
  C4. When \<^verbatim>\<open>formatProjectItems\<close> returns the tasks and the category ids: every
  item whose section is in the section map, that is not ignored and whose content
  ends in a colon has its id among the category ids; the tasks are those of a
  subsequence of the items none of which ends in a colon, and the category ids
  are the ids of a subsequence of the items all of which end in a colon, so that
  no item is both recorded as a category and emitted as a task. With the ids of
  the items pairwise distinct, as the data model takes them to be, the category
  ids and the ids of the tasks are disjoint.
\<close>

theorem formatProjectItems_categories_disjoint:
  assumes run: "formatProjectItems its sm = Inr (tasks, cats)"
  shows "(\<forall>it \<in> set its.
            obj_has (section_id it) (case sm of None \<Rightarrow> defaultSectionMap | Some m \<Rightarrow> m) \<and>
            \<not> RegExp_test RE_IGNORE_ITEM (RawItem.content it) \<and>
            RegExp_test RE_CATEGORY_ITEM (RawItem.content it) \<longrightarrow>
            RawItem.id' it \<in> set cats) \<and>
         (\<exists>kept cs. subseq kept its \<and> subseq cs its \<and>
            map formatItem kept = map Inr tasks \<and> cats = map RawItem.id' cs \<and>
            (\<forall>it \<in> set kept. \<not> RegExp_test RE_CATEGORY_ITEM (RawItem.content it)) \<and>
            (\<forall>it \<in> set cs. RegExp_test RE_CATEGORY_ITEM (RawItem.content it))) \<and>
         (distinct (map RawItem.id' its) \<longrightarrow> set cats \<inter> Task.id' ` set tasks = {})"
proof -
  let ?M = "case sm of None \<Rightarrow> defaultSectionMap | Some m \<Rightarrow> m"
  from run have "formatProjectItems_loop ?M its [] [] NIL = Inr (tasks, cats)"
    by (simp add: formatProjectItems_def)
  from loop_inv [OF this] obtain kept cs where
    kept: "subseq kept its" and cs: "subseq cs its"
    and tasks: "map Inr tasks = map formatItem kept"
    and cats: "cats = map RawItem.id' cs"
    and plain: "\<forall>it \<in> set kept. \<not> RegExp_test RE_CATEGORY_ITEM (RawItem.content it)"
    and categ: "\<forall>it \<in> set cs. RegExp_test RE_CATEGORY_ITEM (RawItem.content it)"
    and all: "\<forall>it \<in> set its. obj_has (section_id it) ?M \<and>
        \<not> RegExp_test RE_IGNORE_ITEM (RawItem.content it) \<and>
        RegExp_test RE_CATEGORY_ITEM (RawItem.content it) \<longrightarrow> it \<in> set cs"
    by auto
  have 1: "\<forall>it \<in> set its. obj_has (section_id it) ?M \<and>
        \<not> RegExp_test RE_IGNORE_ITEM (RawItem.content it) \<and>
        RegExp_test RE_CATEGORY_ITEM (RawItem.content it) \<longrightarrow> RawItem.id' it \<in> set cats"
    using all cats by auto
  have 2: "\<exists>kept cs. subseq kept its \<and> subseq cs its \<and>
            map formatItem kept = map Inr tasks \<and> cats = map RawItem.id' cs \<and>
            (\<forall>it \<in> set kept. \<not> RegExp_test RE_CATEGORY_ITEM (RawItem.content it)) \<and>
            (\<forall>it \<in> set cs. RegExp_test RE_CATEGORY_ITEM (RawItem.content it))"
    using kept cs tasks cats plain categ by (intro exI [of _ kept] exI [of _ cs]) simp
  have 3: "set cats \<inter> Task.id' ` set tasks = {}" if d: "distinct (map RawItem.id' its)"
  proof (rule ccontr)
    assume "set cats \<inter> Task.id' ` set tasks \<noteq> {}"
    then obtain c t where c: "c \<in> set cs" and t: "t \<in> set tasks"
      and eq: "RawItem.id' c = Task.id' t"
      using cats by auto
    from t have "Inr t \<in> set (map formatItem kept)"
      unfolding tasks [symmetric] by simp
    then obtain k where k: "k \<in> set kept" and fk: "formatItem k = Inr t"
      by auto
    have "k \<in> set its" "c \<in> set its"
      using k c kept cs by (auto elim: list_emb_set)
    moreover have "RawItem.id' k = RawItem.id' c"
      using formatItem_id [OF fk] eq by simp
    moreover have "inj_on RawItem.id' (set its)"
      using d by (simp add: distinct_map)
    ultimately have "k = c"
      by (auto dest: inj_onD)
    with k c plain categ show False by auto
  qed
  from 1 2 3 show ?thesis by blast
qed

theorem formatProjectItems_categories_disjoint_witness:
  "formatProjectItems [itemA, itemE, itemD] (Some sectionMap7) = Inr ([taskA, taskD], [5]) \<and>
   RawItem.id' itemE \<in> set [5::int] \<and>
   set [5] \<inter> Task.id' ` set [taskA, taskD] = {}"
proof -
  have run: "formatProjectItems [itemA, itemE, itemD] (Some sectionMap7) = Inr ([taskA, taskD], [5])"
    by code_simp
  have d: "distinct (map RawItem.id' [itemA, itemE, itemD])"
    by (simp add: itemA_def itemE_def itemD_def)
  from formatProjectItems_categories_disjoint [OF run] d
  have "set [5] \<inter> Task.id' ` set [taskA, taskD] = {}"
    by blast
  moreover have "RawItem.id' itemE \<in> set [5::int]"
    by (simp add: itemE_def)
  ultimately show ?thesis
    using run by blast
qed

section \<open>Properties of the matcher\<close>

lemma advance_simps [simp]:
  "before (advance k st) = before st @ take k (after st)"
  "after (advance k st) = drop k (after st)"
  "caps (advance k st) = caps st"
  by (simp_all add: advance_def)

lemma set_cap_simps [simp]:
  "before (set_cap i x st) = before st"
  "after (set_cap i x st) = after st"
  "caps (set_cap i x st) = (caps st)(i \<mapsto> x)"
  by (simp_all add: set_cap_def)

text \<open>The states in which each form of regular expression can end.\<close>

lemma in_ms_Chr:
  "st' \<in> set (ms (Chr x) st) \<longleftrightarrow> (\<exists>a. after st = x # a) \<and> st' = advance 1 st"
  by (cases "after st") auto

lemma in_ms_Cls:
  "st' \<in> set (ms (Cls p) st) \<longleftrightarrow> (\<exists>c a. after st = c # a \<and> p c) \<and> st' = advance 1 st"
  by (cases "after st") auto

lemma in_ms_Star:
  "st' \<in> set (ms (Star p) st) \<longleftrightarrow>
     (\<exists>k \<le> length (takeWhile p (after st)). st' = advance k st)"
proof -
  have "set (ms (Star p) st) = (\<lambda>k. advance k st) ` {k. k \<le> length (takeWhile p (after st))}"
    unfolding ms.simps set_map set_rev set_upt by (rule arg_cong [where f = "image _"]) auto
  then show ?thesis by auto
qed

lemma in_ms_Plus:
  "st' \<in> set (ms (Plus p) st) \<longleftrightarrow>
     (\<exists>k. 1 \<le> k \<and> k \<le> length (takeWhile p (after st)) \<and> st' = advance k st)"
proof -
  have "set (ms (Plus p) st) =
      (\<lambda>k. advance k st) ` {k. 1 \<le> k \<and> k \<le> length (takeWhile p (after st))}"
    unfolding ms.simps set_map set_rev set_upt by (rule arg_cong [where f = "image _"]) auto
  then show ?thesis by auto
qed

lemma in_ms_Rep:
  "st' \<in> set (ms (Rep n p) st) \<longleftrightarrow> n \<le> length (takeWhile p (after st)) \<and> st' = advance n st"
  by auto

lemma in_ms_Opt: "st' \<in> set (ms (Opt r) st) \<longleftrightarrow> st' \<in> set (ms r st) \<or> st' = st"
  by auto

lemma in_ms_Seq:
  "st' \<in> set (ms (Seq r1 r2) st) \<longleftrightarrow> (\<exists>st1 \<in> set (ms r1 st). st' \<in> set (ms r2 st1))"
  by auto

lemma in_ms_Group:
  "st' \<in> set (ms (Group i r) st) \<longleftrightarrow>
     (\<exists>st1 \<in> set (ms r st).
        st' = set_cap i (take (length (after st) - length (after st1)) (after st)) st1)"
  by auto

lemma in_ms_Empty: "st' \<in> set (ms Empty st) \<longleftrightarrow> st' = st"
  by auto

lemma in_ms_Bol: "st' \<in> set (ms Bol st) \<longleftrightarrow> before st = [] \<and> st' = st"
  by auto

lemma in_ms_Eol: "st' \<in> set (ms Eol st) \<longleftrightarrow> after st = [] \<and> st' = st"
  by auto

lemma in_ms_WordB: "st' \<in> set (ms WordB st) \<longleftrightarrow> wordBefore st \<noteq> wordAfter st \<and> st' = st"
  by auto

lemma in_ms_NotWordB:
  "st' \<in> set (ms NotWordB st) \<longleftrightarrow> wordBefore st = wordAfter st \<and> st' = st"
  by auto

lemmas in_ms = in_ms_Chr in_ms_Cls in_ms_Star in_ms_Plus in_ms_Rep in_ms_Opt in_ms_Seq
  in_ms_Group in_ms_Empty in_ms_Bol in_ms_Eol in_ms_WordB in_ms_NotWordB

lemma takeWhile_le: "k \<le> length (takeWhile p xs) \<Longrightarrow> k \<le> length xs"
  using length_takeWhile_le [of p xs] by simp

text \<open>A match takes a prefix of the input.\<close>

lemma ms_span:
  "st' \<in> set (ms r st) \<Longrightarrow>
   \<exists>k \<le> length (after st). before st' = before st @ take k (after st) \<and> after st' = drop k (after st)"
proof (induction r arbitrary: st st')
  case (Chr x)
  then show ?case
    unfolding in_ms by (intro exI [of _ 1]) auto
next
  case (Cls p)
  then show ?case
    unfolding in_ms by (intro exI [of _ 1]) auto
next
  case (Star p)
  then show ?case
    unfolding in_ms by (auto dest: takeWhile_le)
next
  case (Plus p)
  then show ?case
    unfolding in_ms by (auto dest: takeWhile_le)
next
  case (Rep n p)
  then show ?case
    unfolding in_ms by (auto dest: takeWhile_le)
next
  case (Opt r)
  then show ?case
    unfolding in_ms by (auto intro: exI [of _ 0])
next
  case (Seq r1 r2)
  then obtain st1 where 1: "st1 \<in> set (ms r1 st)" and 2: "st' \<in> set (ms r2 st1)"
    unfolding in_ms by auto
  from Seq.IH(1) [OF 1] obtain k where k: "k \<le> length (after st)"
    "before st1 = before st @ take k (after st)" "after st1 = drop k (after st)"
    by blast
  from Seq.IH(2) [OF 2] obtain j where j: "j \<le> length (after st1)"
    "before st' = before st1 @ take j (after st1)" "after st' = drop j (after st1)"
    by blast
  have "take (k + j) (after st) = take k (after st) @ take j (drop k (after st))"
    by (simp add: take_add)
  with k j show ?case
    by (intro exI [of _ "k + j"]) (simp add: add.commute)
next
  case (Group i r)
  then obtain st1 where "st1 \<in> set (ms r st)"
    "st' = set_cap i (take (length (after st) - length (after st1)) (after st)) st1"
    unfolding in_ms by auto
  with Group.IH [of st1 st] show ?case
    by auto
next
  case Empty
  then show ?case unfolding in_ms by (auto intro: exI [of _ 0])
next
  case Bol
  then show ?case unfolding in_ms by (auto intro: exI [of _ 0])
next
  case Eol
  then show ?case unfolding in_ms by (auto intro: exI [of _ 0])
next
  case WordB
  then show ?case unfolding in_ms by (auto intro: exI [of _ 0])
next
  case NotWordB
  then show ?case unfolding in_ms by (auto intro: exI [of _ 0])
qed

lemma ms_length: "st' \<in> set (ms r st) \<Longrightarrow> length (after st') \<le> length (after st)"
  by (drule ms_span) auto

lemma ms_consuming:
  "consuming r \<Longrightarrow> st' \<in> set (ms r st) \<Longrightarrow> length (after st') < length (after st)"
proof (induction r arbitrary: st st')
  case (Chr x)
  then show ?case unfolding in_ms by auto
next
  case (Cls p)
  then show ?case unfolding in_ms by auto
next
  case (Plus p)
  then show ?case
    unfolding in_ms by (auto dest: takeWhile_le)
next
  case (Rep n p)
  then show ?case
    unfolding in_ms by (auto dest: takeWhile_le)
next
  case (Seq r1 r2)
  then obtain st1 where 1: "st1 \<in> set (ms r1 st)" and 2: "st' \<in> set (ms r2 st1)"
    unfolding in_ms by auto
  from Seq.prems(1) have "consuming r1 \<or> consuming r2"
    by simp
  then show ?case
  proof
    assume "consuming r1"
    from Seq.IH(1) [OF this 1] ms_length [OF 2] show ?thesis by simp
  next
    assume "consuming r2"
    from Seq.IH(2) [OF this 2] ms_length [OF 1] show ?thesis by simp
  qed
next
  case (Group i r)
  then show ?case unfolding in_ms by auto
qed simp_all

lemma ms_caps_other:
  "i \<notin> groups r \<Longrightarrow> st' \<in> set (ms r st) \<Longrightarrow> caps st' i = caps st i"
proof (induction r arbitrary: st st')
  case (Seq r1 r2)
  then obtain st1 where "st1 \<in> set (ms r1 st)" "st' \<in> set (ms r2 st1)"
    unfolding in_ms by auto
  with Seq show ?case by (metis UnCI groups.simps(2))
next
  case (Opt r)
  then show ?case unfolding in_ms by auto
next
  case (Group j r)
  then show ?case unfolding in_ms by auto
qed (auto simp: in_ms simp del: ms.simps)

lemma ms_capturing:
  "capturing i r \<Longrightarrow> st' \<in> set (ms r st) \<Longrightarrow> \<exists>x. caps st' i = Some x \<and> x \<noteq> []"
proof (induction r arbitrary: st st')
  case (Seq r1 r2)
  then obtain st1 where 1: "st1 \<in> set (ms r1 st)" and 2: "st' \<in> set (ms r2 st1)"
    unfolding in_ms by auto
  from Seq.prems(1) have "capturing i r2 \<or> (capturing i r1 \<and> i \<notin> groups r2)"
    by simp
  then show ?case
  proof (elim disjE conjE)
    assume "capturing i r2"
    from Seq.IH(2) [OF this 2] show ?thesis .
  next
    assume "capturing i r1" "i \<notin> groups r2"
    with Seq.IH(1) [OF _ 1] ms_caps_other [OF _ 2] show ?thesis by simp
  qed
next
  case (Group j r)
  then obtain st1 where 1: "st1 \<in> set (ms r st)"
    and st': "st' = set_cap j (take (length (after st) - length (after st1)) (after st)) st1"
    unfolding in_ms by auto
  show ?case
  proof (cases "j = i")
    case True
    with Group.prems(1) have "consuming r" by simp
    from ms_consuming [OF this 1] True st' show ?thesis by auto
  next
    case False
    with Group.prems(1) have "capturing i r" by simp
    from Group.IH [OF this 1] False st' show ?thesis by simp
  qed
qed simp_all

text \<open>A regular expression that ends in \<^verbatim>\<open>$\<close> matches up to the end of the input.\<close>

lemma ms_ends_eol: "ends_eol r \<Longrightarrow> st' \<in> set (ms r st) \<Longrightarrow> after st' = []"
proof (induction r arbitrary: st st')
  case (Seq r1 r2)
  then obtain st1 where 1: "st1 \<in> set (ms r1 st)" and 2: "st' \<in> set (ms r2 st1)"
    unfolding in_ms by auto
  from Seq.prems(1) have "ends_eol r2 \<or> (r2 = Empty \<and> ends_eol r1)"
    by simp
  then show ?case
  proof (elim disjE conjE)
    assume "ends_eol r2"
    from Seq.IH(2) [OF this 2] show ?thesis .
  next
    assume "r2 = Empty" "ends_eol r1"
    with Seq.IH(1) [OF _ 1] 2 show ?thesis by simp
  qed
next
  case (Group i r)
  then show ?case unfolding in_ms by auto
qed (simp_all add: in_ms del: ms.simps)

text \<open>
  A regular expression without \<^verbatim>\<open>$\<close> that matches an input also matches, in the
  same way, the input followed by \<open>u\<close>, when \<open>u\<close> does not begin with a word
  character.
\<close>

lemma extend_simps [simp]:
  "before (extend u st) = before st"
  "after (extend u st) = after st @ u"
  "caps (extend u st) = caps st"
  by (simp_all add: extend_def)

lemma advance_extend:
  "k \<le> length (after st) \<Longrightarrow> advance k (extend u st) = extend u (advance k st)"
  by (simp add: advance_def extend_def)

lemma set_cap_extend: "set_cap i x (extend u st) = extend u (set_cap i x st)"
  by (simp add: set_cap_def extend_def)

lemma takeWhile_append_le: "length (takeWhile p a) \<le> length (takeWhile p (a @ u))"
  by (induction a) auto

lemma wordBefore_extend [simp]: "wordBefore (extend u st) = wordBefore st"
  by (simp add: wordBefore_def)

lemma wordAfter_extend:
  "u = [] \<or> \<not> isWordChar (hd u) \<Longrightarrow> wordAfter (extend u st) = wordAfter st"
  by (cases "after st"; cases u) (auto simp: wordAfter_def)

lemma ms_extend:
  assumes u: "u = [] \<or> \<not> isWordChar (hd u)"
  shows "eol_free r \<Longrightarrow> st' \<in> set (ms r st) \<Longrightarrow> extend u st' \<in> set (ms r (extend u st))"
proof (induction r arbitrary: st st')
  case (Chr x)
  then show ?case
    unfolding in_ms by (auto simp: advance_extend)
next
  case (Cls p)
  then show ?case
    unfolding in_ms by (auto simp: advance_extend)
next
  case (Star p)
  then obtain k where k: "k \<le> length (takeWhile p (after st))" "st' = advance k st"
    unfolding in_ms by auto
  then have "k \<le> length (takeWhile p (after st @ u))" "k \<le> length (after st)"
    using takeWhile_append_le [of p "after st" u] by (auto dest: takeWhile_le)
  with k show ?case
    unfolding in_ms by (auto simp: advance_extend)
next
  case (Plus p)
  then obtain k where k: "1 \<le> k" "k \<le> length (takeWhile p (after st))" "st' = advance k st"
    unfolding in_ms by auto
  then have "k \<le> length (takeWhile p (after st @ u))" "k \<le> length (after st)"
    using takeWhile_append_le [of p "after st" u] by (auto dest: takeWhile_le)
  with k show ?case
    unfolding in_ms by (auto simp: advance_extend)
next
  case (Rep n p)
  then have k: "n \<le> length (takeWhile p (after st))" "st' = advance n st"
    unfolding in_ms by auto
  then have "n \<le> length (takeWhile p (after st @ u))" "n \<le> length (after st)"
    using takeWhile_append_le [of p "after st" u] by (auto dest: takeWhile_le)
  with k show ?case
    unfolding in_ms by (auto simp: advance_extend)
next
  case (Opt r)
  then show ?case
    unfolding in_ms by auto
next
  case (Seq r1 r2)
  then obtain st1 where "st1 \<in> set (ms r1 st)" "st' \<in> set (ms r2 st1)"
    unfolding in_ms by auto
  with Seq show ?case
    unfolding in_ms by (auto intro!: bexI [of _ "extend u st1"])
next
  case (Group i r)
  then obtain st1 where 1: "st1 \<in> set (ms r st)"
    and st': "st' = set_cap i (take (length (after st) - length (after st1)) (after st)) st1"
    unfolding in_ms by auto
  from Group 1 have "extend u st1 \<in> set (ms r (extend u st))"
    by simp
  moreover have "extend u st' =
      set_cap i (take (length (after (extend u st)) - length (after (extend u st1)))
        (after (extend u st))) (extend u st1)"
    using st' ms_length [OF 1] by (simp add: set_cap_extend)
  ultimately show ?case
    unfolding in_ms by blast
next
  case Empty
  then show ?case unfolding in_ms by simp
next
  case Bol
  then show ?case unfolding in_ms by simp
next
  case Eol
  then show ?case by simp
next
  case WordB
  then show ?case unfolding in_ms by (simp add: wordAfter_extend [OF u])
next
  case NotWordB
  then show ?case unfolding in_ms by (simp add: wordAfter_extend [OF u])
qed

text \<open>The search for the leftmost match.\<close>

lemma search_Some:
  "search r b a = Some (i, st) \<Longrightarrow>
   \<exists>a1 a2. a = a1 @ a2 \<and> i = length b + length a1 \<and>
     st \<in> set (ms r (MState (b @ a1) a2 Map.empty))"
proof (induction a arbitrary: b)
  case Nil
  then show ?case
    by (auto split: list.splits)
next
  case (Cons c a)
  show ?case
  proof (cases "ms r (MState b (c # a) Map.empty)")
    case Nil
    with Cons.prems have "search r (b @ [c]) a = Some (i, st)"
      by simp
    from Cons.IH [OF this] obtain a1 a2 where "a = a1 @ a2" "i = length (b @ [c]) + length a1"
      "st \<in> set (ms r (MState ((b @ [c]) @ a1) a2 Map.empty))"
      by blast
    then show ?thesis
      by (intro exI [of _ "c # a1"] exI [of _ a2]) simp
  next
    case (Cons st0 sts)
    with Cons.prems have "i = length b" "st = st0"
      by simp_all
    with Cons show ?thesis
      by (intro exI [of _ "[]"] exI [of _ "c # a"]) simp
  qed
qed

lemma search_extend:
  assumes u: "u = [] \<or> \<not> isWordChar (hd u)" and r: "eol_free r"
  shows "search r b a \<noteq> None \<Longrightarrow> search r b (a @ u) \<noteq> None"
proof (induction a arbitrary: b)
  case Nil
  then obtain st where "st \<in> set (ms r (MState b [] Map.empty))"
    by (cases "ms r (MState b [] Map.empty)") auto
  from ms_extend [OF u r this] have "ms r (MState b u Map.empty) \<noteq> []"
    by (auto simp: extend_def)
  then show ?case
    by (cases u) (auto split: list.splits)
next
  case (Cons c a)
  show ?case
  proof (cases "ms r (MState b (c # a) Map.empty)")
    case Nil
    with Cons.prems have "search r (b @ [c]) a \<noteq> None"
      by simp
    from Cons.IH [OF this] show ?thesis
      by (auto split: list.splits)
  next
    case (Cons st0 sts)
    then have "st0 \<in> set (ms r (MState b (c # a) Map.empty))"
      by simp
    from ms_extend [OF u r this] have "ms r (MState b ((c # a) @ u) Map.empty) \<noteq> []"
      by (auto simp: extend_def)
    then show ?thesis
      by (auto split: list.splits)
  qed
qed

lemma RegExp_test_extend:
  "u = [] \<or> \<not> isWordChar (hd u) \<Longrightarrow> eol_free r \<Longrightarrow> \<not> RegExp_test r (s @ u) \<Longrightarrow>
   \<not> RegExp_test r s"
  unfolding RegExp_test_def exec_def using search_extend [of u r "[]" s] by blast

lemma String_match_Some:
  "String_match s r = Some m \<Longrightarrow> \<exists>b a st. st \<in> set (ms r (MState b a Map.empty)) \<and> m = caps st"
proof -
  assume "String_match s r = Some m"
  then obtain i st where "search r [] s = Some (i, st)" "m = caps st"
    unfolding String_match_def exec_def by (cases "search r [] s") auto
  with search_Some [of r "[]" s i st] show ?thesis
    by auto
qed

lemma String_match_capturing:
  "String_match s r = Some m \<Longrightarrow> capturing i r \<Longrightarrow> \<exists>x. m i = Some x \<and> x \<noteq> []"
  by (auto dest!: String_match_Some dest: ms_capturing)

lemma String_match_None: "String_match s r = None \<longleftrightarrow> \<not> RegExp_test r s"
  by (cases "exec r s") (simp_all add: String_match_def RegExp_test_def)

text \<open>The character classes.\<close>

lemma isSpace_not_word: "isSpace c \<Longrightarrow> \<not> isWordChar c"
  by (auto simp: isSpace_def isLineTerminator_def isWordChar_def isDigit_def word_le_nat_alt)

lemma hyphen_not_word: "\<not> isWordChar 0x2D"
  by (simp add: isWordChar_def isDigit_def)

section \<open>Properties of formatContent on every input\<close>

lemma capturing_RE:
  "capturing 1 RE_TAG" "capturing 2 RE_TAG"
  "capturing 1 RE_HYPERTEXT_1" "capturing 2 RE_HYPERTEXT_1"
  "capturing 1 RE_HYPERTEXT_2" "capturing 2 RE_HYPERTEXT_2"
  by (simp_all add: RE_TAG_def RE_HYPERTEXT_1_def RE_HYPERTEXT_2_def hyperlink_tail_def cat_def)

lemma eol_free_RE:
  "eol_free RE_TAG" "eol_free RE_PLAYLIST_CONTENT" "eol_free RE_HYPERTEXT_1"
  "eol_free RE_HYPERTEXT_2"
  by (simp_all add: RE_TAG_def RE_PLAYLIST_CONTENT_def RE_HYPERTEXT_1_def RE_HYPERTEXT_2_def
      hyperlink_tail_def cat_def js_def)

lemma ends_eol_RE_YT_PLAYLIST: "ends_eol RE_YT_PLAYLIST"
  by (simp add: RE_YT_PLAYLIST_def cat_def js_def)

lemma toLowerCase_eq_Nil [simp]: "toLowerCase s = [] \<longleftrightarrow> s = []"
  by (simp add: toLowerCase_def)

lemma truthy_Some: "s \<noteq> [] \<Longrightarrow> truthy (Some s) = Some s"
  by (simp add: truthy_def)

lemma truthy_eq_Some: "truthy v = Some s \<longleftrightarrow> v = Some s \<and> s \<noteq> []"
  by (auto simp: truthy_def split: option.splits if_splits)

lemma truthy_eq_None: "truthy v = None \<longleftrightarrow> v = None \<or> v = Some []"
  by (auto simp: truthy_def split: option.splits if_splits)

text \<open>\<^verbatim>\<open>formatContent\<close> does not throw on a string.\<close>

lemma formatContent_total: "\<exists>p. formatContent c = Inr p"
proof -
  obtain tag1 content1 where 1:
    "(case String_match c RE_TAG of
        Some m \<Rightarrow> (m 1, m 2)
      | None \<Rightarrow> (if RegExp_test RE_PLAYLIST_CONTENT c then Some (js ''playlist'') else None,
                  Some c)) = (tag1, Some content1)"
    by (cases "String_match c RE_TAG")
      (auto dest: String_match_capturing [OF _ capturing_RE(2)])
  obtain link2 content2 where 2:
    "(case String_match content1 RE_HYPERTEXT_1 of
        Some m \<Rightarrow> (m 1, m 2)
      | None \<Rightarrow>
          (case String_match content1 RE_HYPERTEXT_2 of
             Some m \<Rightarrow> (m 2, m 1)
           | None \<Rightarrow> (None, Some content1))) = (link2, Some content2)"
    by (cases "String_match content1 RE_HYPERTEXT_1"; cases "String_match content1 RE_HYPERTEXT_2")
      (auto dest: String_match_capturing [OF _ capturing_RE(4)]
         String_match_capturing [OF _ capturing_RE(5)])
  show ?thesis
    unfolding formatContent_def 1 by (simp add: 2)
qed

text \<open>A result without tag and without link: no expression has matched.\<close>

lemma formatContent_plain:
  assumes "formatContent c = Inr p" "tag p = None" "link p = None"
  shows "\<not> RegExp_test RE_TAG c" "\<not> RegExp_test RE_PLAYLIST_CONTENT c"
    "\<not> RegExp_test RE_HYPERTEXT_1 c" "\<not> RegExp_test RE_HYPERTEXT_2 c"
    "text p = truthy (Some (removeYouTubeKeyword c))"
proof -
  have playlist: "js ''playlist'' \<noteq> []"
    by (simp add: js_def)
  show tag: "\<not> RegExp_test RE_TAG c"
  proof
    assume "RegExp_test RE_TAG c"
    then obtain m where m: "String_match c RE_TAG = Some m"
      using String_match_None [of c RE_TAG] by auto
    from String_match_capturing [OF m capturing_RE(1)] String_match_capturing [OF m capturing_RE(2)]
    obtain x y where "m 1 = Some x" "x \<noteq> []" "m 2 = Some y"
      by auto
    with m assms(1,2) show False
      by (auto simp: formatContent_def onlyTruthyValuesOnPojo_def truthy_eq_None
          split: option.splits prod.splits)
  qed
  then have no_tag: "String_match c RE_TAG = None"
    by (simp add: String_match_None)
  show pl: "\<not> RegExp_test RE_PLAYLIST_CONTENT c"
  proof
    assume "RegExp_test RE_PLAYLIST_CONTENT c"
    with no_tag assms(1,2) playlist show False
      by (auto simp: formatContent_def onlyTruthyValuesOnPojo_def truthy_eq_None
          split: option.splits prod.splits)
  qed
  show h1: "\<not> RegExp_test RE_HYPERTEXT_1 c"
  proof
    assume "RegExp_test RE_HYPERTEXT_1 c"
    then obtain m where m: "String_match c RE_HYPERTEXT_1 = Some m"
      using String_match_None [of c RE_HYPERTEXT_1] by auto
    from String_match_capturing [OF m capturing_RE(3)] String_match_capturing [OF m capturing_RE(4)]
    obtain x y where "m 1 = Some x" "x \<noteq> []" "m 2 = Some y"
      by auto
    with m no_tag pl assms(1,3) show False
      by (auto simp: formatContent_def onlyTruthyValuesOnPojo_def truthy_eq_None)
  qed
  then have no_h1: "String_match c RE_HYPERTEXT_1 = None"
    by (simp add: String_match_None)
  show h2: "\<not> RegExp_test RE_HYPERTEXT_2 c"
  proof
    assume "RegExp_test RE_HYPERTEXT_2 c"
    then obtain m where m: "String_match c RE_HYPERTEXT_2 = Some m"
      using String_match_None [of c RE_HYPERTEXT_2] by auto
    from String_match_capturing [OF m capturing_RE(5)] String_match_capturing [OF m capturing_RE(6)]
    obtain x y where "m 1 = Some x" "m 2 = Some y" "y \<noteq> []"
      by auto
    with m no_tag no_h1 pl assms(1,3) show False
      by (auto simp: formatContent_def onlyTruthyValuesOnPojo_def truthy_eq_None)
  qed
  then have no_h2: "String_match c RE_HYPERTEXT_2 = None"
    by (simp add: String_match_None)
  from no_tag pl no_h1 no_h2 assms(1) show "text p = truthy (Some (removeYouTubeKeyword c))"
    by (auto simp: formatContent_def onlyTruthyValuesOnPojo_def)
qed

lemma formatContent_no_match:
  assumes "\<not> RegExp_test RE_TAG c" "\<not> RegExp_test RE_PLAYLIST_CONTENT c"
    "\<not> RegExp_test RE_HYPERTEXT_1 c" "\<not> RegExp_test RE_HYPERTEXT_2 c"
  shows "formatContent c =
    Inr \<lparr>text = truthy (Some (removeYouTubeKeyword c)), tag = None, link = None\<rparr>"
  using assms
  by (simp add: formatContent_def onlyTruthyValuesOnPojo_def String_match_None [symmetric]
      truthy_def)

text \<open>What \<^verbatim>\<open>removeYouTubeKeyword\<close> removes begins with white space or a hyphen.\<close>

lemma removeYouTubeKeyword_cases:
  "(\<not> RegExp_test RE_YT_PLAYLIST c \<and> removeYouTubeKeyword c = c) \<or>
   (\<exists>u. c = removeYouTubeKeyword c @ u \<and> u \<noteq> [] \<and> \<not> isWordChar (hd u))"
proof (cases "exec RE_YT_PLAYLIST c")
  case None
  then show ?thesis
    by (simp add: removeYouTubeKeyword_def String_remove_def RegExp_test_def)
next
  case (Some r)
  obtain i st where r: "r = (i, st)"
    by (cases r)
  from Some r search_Some [of RE_YT_PLAYLIST "[]" c i st]
  obtain a1 a2 where c: "c = a1 @ a2" and i: "i = length a1"
    and st: "st \<in> set (ms RE_YT_PLAYLIST (MState a1 a2 Map.empty))"
    unfolding exec_def by auto
  have "after st = []"
    using ms_ends_eol [OF ends_eol_RE_YT_PLAYLIST st] .
  with Some r c i have rm: "removeYouTubeKeyword c = a1"
    by (simp add: removeYouTubeKeyword_def String_remove_def)
  from st obtain k b where k: "k \<le> length (takeWhile isSpace a2)" and d: "drop k a2 = 0x2D # b"
    unfolding RE_YT_PLAYLIST_def cat_def by (auto simp: in_ms simp del: ms.simps)
  have "a2 \<noteq> [] \<and> \<not> isWordChar (hd a2)"
  proof (cases k)
    case 0
    with d show ?thesis
      by (simp add: hyphen_not_word)
  next
    case (Suc k')
    with k have "takeWhile isSpace a2 \<noteq> []"
      by auto
    then have "a2 \<noteq> []" "isSpace (hd a2)"
      by (cases a2; auto split: if_splits)+
    then show ?thesis
      by (simp add: isSpace_not_word)
  qed
  with c rm show ?thesis
    by auto
qed

text \<open>
  C8, as amended. When \<^verbatim>\<open>formatContent\<close> returns a text \<open>t\<close> with no tag and no
  link, \<^verbatim>\<open>formatContent\<close> of \<open>t\<close> has no tag and no link either, and its text is
  \<open>t\<close> without the \<^verbatim>\<open>- YouTube\<close> decoration that \<open>t\<close> may still end in: the text
  \<open>t\<close> itself when \<open>t\<close> has no such ending. The word \<^verbatim>\<open>playlist\<close> does not stand
  alone in \<open>t\<close>, so that the case of a new tag \<^verbatim>\<open>playlist\<close> does not arise.
\<close>

theorem formatContent_rerun:
  assumes "formatContent c = Inr \<lparr>text = Some t, tag = None, link = None\<rparr>"
  shows "formatContent t =
           Inr \<lparr>text = truthy (Some (removeYouTubeKeyword t)), tag = None, link = None\<rparr> \<and>
         \<not> RegExp_test RE_PLAYLIST_CONTENT t \<and>
         (\<not> RegExp_test RE_YT_PLAYLIST t \<longrightarrow>
            formatContent t = Inr \<lparr>text = Some t, tag = None, link = None\<rparr>)"
proof -
  from formatContent_plain [OF assms]
  have c: "\<not> RegExp_test RE_TAG c" "\<not> RegExp_test RE_PLAYLIST_CONTENT c"
    "\<not> RegExp_test RE_HYPERTEXT_1 c" "\<not> RegExp_test RE_HYPERTEXT_2 c"
    and "Some t = truthy (Some (removeYouTubeKeyword c))"
    by simp_all
  then have t: "t = removeYouTubeKeyword c" "t \<noteq> []"
    by (auto simp: truthy_def split: if_splits)
  have "\<exists>u. c = t @ u \<and> (u = [] \<or> \<not> isWordChar (hd u))"
    using removeYouTubeKeyword_cases [of c] t(1) by auto
  then obtain u where u: "c = t @ u" "u = [] \<or> \<not> isWordChar (hd u)"
    by blast
  have nt1: "\<not> RegExp_test RE_TAG t"
    by (rule RegExp_test_extend [OF u(2) eol_free_RE(1)]) (use c(1) u(1) in simp)
  have nt2: "\<not> RegExp_test RE_PLAYLIST_CONTENT t"
    by (rule RegExp_test_extend [OF u(2) eol_free_RE(2)]) (use c(2) u(1) in simp)
  have nt3: "\<not> RegExp_test RE_HYPERTEXT_1 t"
    by (rule RegExp_test_extend [OF u(2) eol_free_RE(3)]) (use c(3) u(1) in simp)
  have nt4: "\<not> RegExp_test RE_HYPERTEXT_2 t"
    by (rule RegExp_test_extend [OF u(2) eol_free_RE(4)]) (use c(4) u(1) in simp)
  note nt = nt1 nt2 nt3 nt4
  have 1: "formatContent t =
      Inr \<lparr>text = truthy (Some (removeYouTubeKeyword t)), tag = None, link = None\<rparr>"
    by (rule formatContent_no_match [OF nt])
  have 2: "formatContent t = Inr \<lparr>text = Some t, tag = None, link = None\<rparr>"
    if "\<not> RegExp_test RE_YT_PLAYLIST t"
  proof -
    from that have "exec RE_YT_PLAYLIST t = None"
      unfolding RegExp_test_def by blast
    then have "removeYouTubeKeyword t = t"
      by (simp add: removeYouTubeKeyword_def String_remove_def)
    with 1 t(2) show ?thesis
      by (simp add: truthy_Some)
  qed
  from 1 2 nt(2) show ?thesis
    by blast
qed

lemma removeYouTubeKeyword_once: "removeYouTubeKeyword (js ''a - YouTube'') = js ''a''"
  by code_simp

theorem formatContent_rerun_witness:
  "formatContent (js ''a - YouTube - YouTube'') =
     Inr \<lparr>text = Some (js ''a - YouTube''), tag = None, link = None\<rparr> \<and>
   formatContent (js ''a - YouTube'') = Inr \<lparr>text = Some (js ''a''), tag = None, link = None\<rparr>"
proof -
  have 1: "formatContent (js ''a - YouTube - YouTube'') =
     Inr \<lparr>text = Some (js ''a - YouTube''), tag = None, link = None\<rparr>"
    by code_simp
  have "js ''a'' \<noteq> []"
    by (simp add: js_def)
  with formatContent_rerun [OF 1] 1 show ?thesis
    by (simp add: removeYouTubeKeyword_once truthy_Some)
qed

text \<open>
  C8 as the specification states it fails at \<^verbatim>\<open>"a - YouTube - YouTube"\<close>: its text
  \<^verbatim>\<open>"a - YouTube"\<close> comes with no tag and no link and does not contain the word
  \<^verbatim>\<open>playlist\<close>, and \<^verbatim>\<open>formatContent\<close> of this text has another text, \<^verbatim>\<open>"a"\<close>.
\<close>

theorem formatContent_rerun_changes_text:
  "formatContent (js ''a - YouTube - YouTube'') =
     Inr \<lparr>text = Some (js ''a - YouTube''), tag = None, link = None\<rparr> \<and>
   \<not> RegExp_test RE_PLAYLIST_CONTENT (js ''a - YouTube'') \<and>
   formatContent (js ''a - YouTube'') = Inr \<lparr>text = Some (js ''a''), tag = None, link = None\<rparr> \<and>
   js ''a'' \<noteq> js ''a - YouTube''"
  by code_simp

section \<open>Properties of getSectionsGroupedByProjectId\<close>

lemma obj_get_obj_put_other: "k' \<noteq> k \<Longrightarrow> obj_get (obj_put k v obj) k' = obj_get obj k'"
  by (induction obj) (auto simp: obj_get_def)

lemma obj_get_obj_has: "obj_get obj k = Some v \<Longrightarrow> obj_has k obj"
  unfolding obj_get_def obj_has_def by (metis fst_conv imageI map_of_SomeD)

text \<open>The reduction over the sections returns a map, and leaves the value of the
  key \<^verbatim>\<open>"null"\<close> as it is.\<close>

lemma sections_reduce_root:
  "obj_get sectionsMap None = Some v \<Longrightarrow>
   \<exists>m. sections_reduce sectionsMap sections = Inr m \<and> obj_get m None = Some v"
proof (induction sections arbitrary: sectionsMap)
  case Nil
  then show ?case by simp
next
  case (Cons s sections)
  obtain c where c: "formatContent (name s) = Inr c"
    using formatContent_total by blast
  have "obj_get (obj_put (Some (Section.id' s)) (Parsed c) sectionsMap) None = Some v"
    using Cons.prems by (simp add: obj_get_obj_put_other)
  from Cons.IH [OF this] Cons.IH [OF Cons.prems] c show ?case
    by simp
qed

text \<open>
  C7. For every list of sections that the sync request answers and every project
  id, \<^verbatim>\<open>getSectionsGroupedByProjectId\<close> returns a map that has the key \<^verbatim>\<open>"null"\<close>
  with the value ROOT_SECTION: no section takes the key out or gives it another
  value. For no section at all the map is the one with this key only, and this
  map is the default of \<^verbatim>\<open>formatProjectItems\<close> called without a section map.
\<close>

theorem getSectionsGroupedByProjectId_root:
  "(\<exists>m. getSectionsGroupedByProjectId (Inr sections) projectId = Inr m \<and>
        obj_has None m \<and> obj_get m None = Some (Label ROOT_SECTION)) \<and>
   getSectionsGroupedByProjectId (Inr []) projectId = Inr defaultSectionMap \<and>
   defaultSectionMap = [(None, Label ROOT_SECTION)] \<and>
   formatProjectItems its None = formatProjectItems its (Some defaultSectionMap)"
proof -
  let ?keep = "if projectId \<noteq> 0
               then filter (\<lambda>section. project_id section = projectId) sections
               else sections"
  have "obj_get [(None, Label ROOT_SECTION)] None = Some (Label ROOT_SECTION)"
    by (simp add: obj_get_def)
  from sections_reduce_root [OF this, of ?keep]
  obtain m where "sections_reduce [(None, Label ROOT_SECTION)] ?keep = Inr m"
    "obj_get m None = Some (Label ROOT_SECTION)"
    by blast
  then have "getSectionsGroupedByProjectId (Inr sections) projectId = Inr m \<and>
      obj_has None m \<and> obj_get m None = Some (Label ROOT_SECTION)"
    by (simp add: getSectionsGroupedByProjectId_def getSections_def obj_get_obj_has)
  moreover have "getSectionsGroupedByProjectId (Inr []) projectId = Inr defaultSectionMap"
    by (simp add: getSectionsGroupedByProjectId_def getSections_def defaultSectionMap_def)
  moreover have "formatProjectItems its None = formatProjectItems its (Some defaultSectionMap)"
    by (simp add: formatProjectItems_def)
  ultimately show ?thesis
    by (auto simp: defaultSectionMap_def)
qed

lemma getSectionsGroupedByProjectId_exampleSections:
  "getSectionsGroupedByProjectId (Inr exampleSections) 1 =
     Inr [(None, Label ROOT_SECTION),
          (Some 3, Parsed \<lparr>text = Some (js ''Work''), tag = None, link = None\<rparr>)]"
  by code_simp

theorem getSectionsGroupedByProjectId_root_witness:
  "getSectionsGroupedByProjectId (Inr exampleSections) 1 =
     Inr [(None, Label ROOT_SECTION),
          (Some 3, Parsed \<lparr>text = Some (js ''Work''), tag = None, link = None\<rparr>)] \<and>
   obj_get [(None, Label ROOT_SECTION),
            (Some (3::int), Parsed \<lparr>text = Some (js ''Work''), tag = None, link = None\<rparr>)]
       None =
     Some (Label ROOT_SECTION)"
proof -
  from getSectionsGroupedByProjectId_root [of exampleSections 1 "[]"]
  obtain m where 1: "getSectionsGroupedByProjectId (Inr exampleSections) 1 = Inr m"
    and 2: "obj_get m None = Some (Label ROOT_SECTION)"
    by blast
  from 1 have m: "m = [(None, Label ROOT_SECTION),
      (Some 3, Parsed \<lparr>text = Some (js ''Work''), tag = None, link = None\<rparr>)]"
    unfolding getSectionsGroupedByProjectId_exampleSections by simp
  show ?thesis
    using getSectionsGroupedByProjectId_exampleSections 2 [unfolded m] by (rule conjI)
qed

section \<open>The first hypertext form\<close>

lemma first_match_Chr: "first_match (Chr x) (MState b (x # a) c) (MState (b @ [x]) a c)"
  by (simp add: first_match_def advance_def)

lemma first_match_Empty: "first_match Empty st st"
  by (simp add: first_match_def)

lemma first_match_Bol: "first_match Bol (MState [] a c) (MState [] a c)"
  by (simp add: first_match_def)

lemma first_match_NotWordB:
  "\<not> isWordChar x \<Longrightarrow> first_match NotWordB (MState (b @ [x]) [] c) (MState (b @ [x]) [] c)"
  by (simp add: first_match_def wordBefore_def wordAfter_def)

lemma takeWhile_all: "\<forall>x \<in> set xs. p x \<Longrightarrow> ys = [] \<or> \<not> p (hd ys) \<Longrightarrow> takeWhile p (xs @ ys) = xs"
  by (cases ys) (auto simp: takeWhile_append2)

lemma first_match_Star_none:
  "a = [] \<or> \<not> p (hd a) \<Longrightarrow> first_match (Star p) (MState b a c) (MState b a c)"
  using takeWhile_all [of "[]" p a] by (simp add: first_match_def advance_def)

lemma first_match_Plus:
  assumes "xs \<noteq> []" "\<forall>x \<in> set xs. p x" "ys = [] \<or> \<not> p (hd ys)"
  shows "first_match (Plus p) (MState b (xs @ ys) c) (MState (b @ xs) ys c)"
proof -
  have "takeWhile p (xs @ ys) = xs"
    using assms(2,3) by (rule takeWhile_all)
  moreover have "rev [1 ..< Suc (length xs)] = length xs # rev [1 ..< length xs]"
    using assms(1) by (cases xs) simp_all
  ultimately show ?thesis
    by (simp add: first_match_def advance_def del: upt_Suc)
qed

lemma ms_Plus_two:
  assumes "xs \<noteq> []" "\<forall>x \<in> set xs. p x" "p y"
  shows "\<exists>rest. ms (Plus p) (MState b (xs @ [y]) c) =
     MState (b @ xs @ [y]) [] c # MState (b @ xs) [y] c # rest"
proof -
  have "takeWhile p (xs @ [y]) = xs @ [y]"
    using assms by simp
  moreover have "rev [1 ..< Suc (Suc (length xs))] = Suc (length xs) # length xs # rev [1 ..< length xs]"
    using assms(1) by (cases xs) simp_all
  ultimately show ?thesis
    by (simp add: advance_def del: upt_Suc)
qed

lemma first_match_Group:
  "first_match r (MState b a c) (MState b' a' c') \<Longrightarrow>
   first_match (Group i r) (MState b a c)
     (MState b' a' (c'(i \<mapsto> take (length a - length a') a)))"
  by (auto simp: first_match_def set_cap_def)

lemma first_match_Seq:
  "first_match r1 st st1 \<Longrightarrow> first_match r2 st1 st2 \<Longrightarrow> first_match (Seq r1 r2) st st2"
  by (auto simp: first_match_def)

lemma first_match_Seq_skip:
  "ms r1 st = st0 # st1 # rest \<Longrightarrow> ms r2 st0 = [] \<Longrightarrow> first_match r2 st1 st2 \<Longrightarrow>
   first_match (Seq r1 r2) st st2"
  by (auto simp: first_match_def)

lemma String_match_first:
  "first_match r (MState [] s Map.empty) st \<Longrightarrow> String_match s r = Some (caps st)"
  by (cases s) (auto simp: first_match_def String_match_def exec_def)

text \<open>The first match of RE_HYPERTEXT_1 on a token, white space and a parenthesised
  part without line terminator.\<close>

lemma not_word_paren: "\<not> isWordChar 0x29"
  by (simp add: isWordChar_def isDigit_def)

lemma paren_classes: "\<not> isSpace 0x28" "notLineTerminator 0x29"
  by (simp_all add: isSpace_def isLineTerminator_def notLineTerminator_def)

lemma first_match_hyperlink_tail:
  assumes g2: "g2 \<noteq> []" "\<forall>x \<in> set g2. \<not> isLineTerminator x"
  shows "first_match hyperlink_tail (MState b (0x28 # g2 @ [0x29]) c)
     (MState (b @ 0x28 # g2 @ [0x29]) [] (c(2 \<mapsto> g2)))"
proof -
  let ?end = "Seq (Chr 0x29) (Seq NotWordB Empty)"
  have tail: "hyperlink_tail =
      Seq (Star isSpace) (Seq (Chr 0x28) (Seq (Group 2 (Plus notLineTerminator)) ?end))"
    by (simp add: hyperlink_tail_def cat_def)
  have star: "first_match (Star isSpace) (MState b (0x28 # g2 @ [0x29]) c)
      (MState b (0x28 # g2 @ [0x29]) c)"
    by (rule first_match_Star_none) (simp add: paren_classes)
  have open_paren: "first_match (Chr 0x28) (MState b (0x28 # g2 @ [0x29]) c)
      (MState (b @ [0x28]) (g2 @ [0x29]) c)"
    by (rule first_match_Chr)
  from ms_Plus_two [where xs = g2 and p = notLineTerminator and y = "0x29" and b = "b @ [0x28]"
      and c = c] g2
  obtain rest where plus: "ms (Plus notLineTerminator) (MState (b @ [0x28]) (g2 @ [0x29]) c) =
      MState ((b @ [0x28]) @ g2 @ [0x29]) [] c # MState ((b @ [0x28]) @ g2) [0x29] c # rest"
    by (auto simp: notLineTerminator_def paren_classes [unfolded notLineTerminator_def])
  have group: "ms (Group 2 (Plus notLineTerminator)) (MState (b @ [0x28]) (g2 @ [0x29]) c) =
      MState ((b @ [0x28]) @ g2 @ [0x29]) [] (c(2 \<mapsto> g2 @ [0x29]))
      # MState ((b @ [0x28]) @ g2) [0x29] (c(2 \<mapsto> g2))
      # map (\<lambda>st'. set_cap 2 (take (length (g2 @ [0x29]) - length (after st')) (g2 @ [0x29])) st')
          rest"
    unfolding ms.simps(8) plus by (simp add: set_cap_def)
  have fail: "ms ?end (MState ((b @ [0x28]) @ g2 @ [0x29]) [] (c(2 \<mapsto> g2 @ [0x29]))) = []"
    by simp
  have c1: "first_match (Chr 0x29) (MState ((b @ [0x28]) @ g2) [0x29] (c(2 \<mapsto> g2)))
      (MState (((b @ [0x28]) @ g2) @ [0x29]) [] (c(2 \<mapsto> g2)))"
    by (rule first_match_Chr)
  have c2: "first_match NotWordB (MState (((b @ [0x28]) @ g2) @ [0x29]) [] (c(2 \<mapsto> g2)))
      (MState (((b @ [0x28]) @ g2) @ [0x29]) [] (c(2 \<mapsto> g2)))"
    by (rule first_match_NotWordB [OF not_word_paren])
  have close: "first_match ?end (MState ((b @ [0x28]) @ g2) [0x29] (c(2 \<mapsto> g2)))
      (MState (((b @ [0x28]) @ g2) @ [0x29]) [] (c(2 \<mapsto> g2)))"
    by (rule first_match_Seq [OF c1 first_match_Seq [OF c2 first_match_Empty]])
  have "first_match (Seq (Group 2 (Plus notLineTerminator)) ?end)
      (MState (b @ [0x28]) (g2 @ [0x29]) c)
      (MState (((b @ [0x28]) @ g2) @ [0x29]) [] (c(2 \<mapsto> g2)))"
    by (rule first_match_Seq_skip [OF group fail close])
  from first_match_Seq [OF star first_match_Seq [OF open_paren this]]
  show ?thesis
    unfolding tail by simp
qed

text \<open>
  An input made of a token \<open>g1\<close> without \<^verbatim>\<open>(\<close> and white space, white space \<open>ws\<close>,
  and a part \<open>g2\<close> in parentheses without line terminator: the first match of
  RE_HYPERTEXT_1 has the token as group 1 and the part in parentheses as group 2.
\<close>

lemma String_match_RE_HYPERTEXT_1:
  assumes g1: "g1 \<noteq> []" "\<forall>x \<in> set g1. x \<noteq> 0x28 \<and> \<not> isSpace x"
    and ws: "ws \<noteq> []" "\<forall>x \<in> set ws. isSpace x"
    and g2: "g2 \<noteq> []" "\<forall>x \<in> set g2. \<not> isLineTerminator x"
  shows "\<exists>m. String_match (g1 @ ws @ 0x28 # g2 @ [0x29]) RE_HYPERTEXT_1 = Some m \<and>
     m 1 = Some g1 \<and> m 2 = Some g2"
proof -
  let ?rest = "0x28 # g2 @ [0x29]"
  let ?P = "\<lambda>c::16 word. c \<noteq> 0x28 \<and> \<not> isSpace c"
  have re: "RE_HYPERTEXT_1 =
      Seq Bol (Seq (Group 1 (Plus ?P)) (Seq (Plus isSpace) (Seq hyperlink_tail Empty)))"
    by (simp add: RE_HYPERTEXT_1_def cat_def)
  have "first_match (Plus ?P) (MState [] (g1 @ ws @ ?rest) Map.empty)
      (MState ([] @ g1) (ws @ ?rest) Map.empty)"
    using g1 ws by (intro first_match_Plus) (auto simp: neq_Nil_conv)
  from first_match_Group [OF this, of 1]
  have group1: "first_match (Group 1 (Plus ?P)) (MState [] (g1 @ ws @ ?rest) Map.empty)
      (MState g1 (ws @ ?rest) [1 \<mapsto> g1])"
    by simp
  have spaces: "first_match (Plus isSpace) (MState g1 (ws @ ?rest) [1 \<mapsto> g1])
      (MState (g1 @ ws) ?rest [1 \<mapsto> g1])"
    using ws by (intro first_match_Plus) (auto simp: paren_classes)
  have tail: "first_match hyperlink_tail (MState (g1 @ ws) ?rest [1 \<mapsto> g1])
      (MState ((g1 @ ws) @ ?rest) [] [1 \<mapsto> g1, 2 \<mapsto> g2])"
    by (rule first_match_hyperlink_tail [OF g2])
  have "first_match RE_HYPERTEXT_1 (MState [] (g1 @ ws @ ?rest) Map.empty)
      (MState ((g1 @ ws) @ ?rest) [] [1 \<mapsto> g1, 2 \<mapsto> g2])"
    unfolding re
    by (rule first_match_Seq [OF first_match_Bol first_match_Seq [OF group1
          first_match_Seq [OF spaces first_match_Seq [OF tail first_match_Empty]]]])
  from String_match_first [OF this] show ?thesis
    by simp
qed

lemma toLowerCase_playlist: "toLowerCase (js ''playlist'') = js ''playlist''"
  by code_simp

text \<open>
  C1, as amended. For every input of the first hypertext form, a token without
  \<^verbatim>\<open>(\<close> and without white space, then white space, then a part in parentheses
  without line terminator that ends the input, and no tag in braces before it:
  \<^verbatim>\<open>formatContent\<close> returns the token before the parentheses as the link, and as
  the text the part in parentheses, without the \<^verbatim>\<open>- YouTube\<close> decoration that it
  may end in. The tag is \<^verbatim>\<open>playlist\<close> when this word stands alone in the input,
  and absent otherwise.
\<close>

theorem formatContent_hypertext_1:
  assumes g1: "g1 \<noteq> []" "\<forall>x \<in> set g1. x \<noteq> 0x28 \<and> \<not> isSpace x"
    and ws: "ws \<noteq> []" "\<forall>x \<in> set ws. isSpace x"
    and g2: "g2 \<noteq> []" "\<forall>x \<in> set g2. \<not> isLineTerminator x"
    and no_tag: "\<not> RegExp_test RE_TAG (g1 @ ws @ 0x28 # g2 @ [0x29])"
  shows "formatContent (g1 @ ws @ 0x28 # g2 @ [0x29]) =
           Inr \<lparr>text = truthy (Some (removeYouTubeKeyword g2)),
                tag = (if RegExp_test RE_PLAYLIST_CONTENT (g1 @ ws @ 0x28 # g2 @ [0x29])
                       then Some (js ''playlist'') else None),
                link = Some g1\<rparr> \<and>
         (\<not> RegExp_test RE_YT_PLAYLIST g2 \<longrightarrow> truthy (Some (removeYouTubeKeyword g2)) = Some g2)"
proof -
  let ?c = "g1 @ ws @ 0x28 # g2 @ [0x29]"
  from String_match_RE_HYPERTEXT_1 [OF g1 ws g2]
  obtain m where m: "String_match ?c RE_HYPERTEXT_1 = Some m" "m 1 = Some g1" "m 2 = Some g2"
    by blast
  have t: "String_match ?c RE_TAG = None"
    using no_tag by (simp add: String_match_None)
  have playlist: "js ''playlist'' \<noteq> []"
    by (simp add: js_def)
  have 1: "formatContent ?c =
      Inr \<lparr>text = truthy (Some (removeYouTubeKeyword g2)),
           tag = (if RegExp_test RE_PLAYLIST_CONTENT ?c then Some (js ''playlist'') else None),
           link = Some g1\<rparr>"
    unfolding formatContent_def t
    using m g1(1) playlist
    by (simp add: onlyTruthyValuesOnPojo_def truthy_Some toLowerCase_playlist truthy_def)
  have 2: "truthy (Some (removeYouTubeKeyword g2)) = Some g2" if "\<not> RegExp_test RE_YT_PLAYLIST g2"
  proof -
    from that have "exec RE_YT_PLAYLIST g2 = None"
      unfolding RegExp_test_def by blast
    then have "removeYouTubeKeyword g2 = g2"
      by (simp add: removeYouTubeKeyword_def String_remove_def)
    with g2(1) show ?thesis
      by (simp add: truthy_Some)
  qed
  from 1 2 show ?thesis
    by blast
qed

theorem formatContent_hypertext_1_witness:
  "formatContent (js ''https://youtu.be/x (My Song - YouTube)'') =
     Inr \<lparr>text = Some (js ''My Song''), tag = None, link = Some (js ''https://youtu.be/x'')\<rparr>"
proof -
  have g1: "js ''https://youtu.be/x'' \<noteq> []"
    "\<forall>x \<in> set (js ''https://youtu.be/x''). x \<noteq> 0x28 \<and> \<not> isSpace x"
    by code_simp+
  have ws: "js '' '' \<noteq> []" "\<forall>x \<in> set (js '' ''). isSpace x"
    by code_simp+
  have g2: "js ''My Song - YouTube'' \<noteq> []"
    "\<forall>x \<in> set (js ''My Song - YouTube''). \<not> isLineTerminator x"
    by code_simp+
  have c: "js ''https://youtu.be/x'' @ js '' '' @ 0x28 # js ''My Song - YouTube'' @ [0x29] =
      js ''https://youtu.be/x (My Song - YouTube)''"
    by code_simp
  have no_tag: "\<not> RegExp_test RE_TAG
      (js ''https://youtu.be/x'' @ js '' '' @ 0x28 # js ''My Song - YouTube'' @ [0x29])"
    by code_simp
  have no_playlist: "\<not> RegExp_test RE_PLAYLIST_CONTENT
      (js ''https://youtu.be/x'' @ js '' '' @ 0x28 # js ''My Song - YouTube'' @ [0x29])"
    by code_simp
  have stripped: "truthy (Some (removeYouTubeKeyword (js ''My Song - YouTube''))) =
      Some (js ''My Song'')"
    by code_simp
  from formatContent_hypertext_1 [OF g1 ws g2 no_tag] show ?thesis
    unfolding c [symmetric] by (simp only: no_playlist stripped if_False)
qed

text \<open>
  C1 as the specification states it fails at \<^verbatim>\<open>"Doc (http://x)"\<close>: the text of the
  result is \<^verbatim>\<open>"http://x"\<close> and its link is \<^verbatim>\<open>"Doc"\<close>, not the text \<^verbatim>\<open>"Doc"\<close> and the
  link \<^verbatim>\<open>"http://x"\<close>.
\<close>

theorem formatContent_hypertext_1_counterexample:
  "formatContent (js ''Doc (http://x)'') =
     Inr \<lparr>text = Some (js ''http://x''), tag = None, link = Some (js ''Doc'')\<rparr> \<and>
   formatContent (js ''Doc (http://x)'') \<noteq>
     Inr \<lparr>text = Some (js ''Doc''), tag = None, link = Some (js ''http://x'')\<rparr>"
  by code_simp

end
